theory Spec2Isabelle
  imports Complex_Main
begin

section \<open>The DES estimator of \<open>des/algorithm.py\<close>\<close>

text \<open>
  The module estimates the number of distinct items of a stream. Its exceptions are
  values of the type \<open>error\<close>, by their Python class.
\<close>

datatype error = ValueError | AssertionError | OverflowError | ZeroDivisionError

subsection \<open>Python floats\<close>

text \<open>
  A Python float is an IEEE double: a finite value, an infinity or a NaN. The two zeros
  are one value here; no operation below tells them apart, since a division by either
  raises. What the language itself decides is written out: a division by zero raises
  \<open>ZeroDivisionError\<close>, an integer of magnitude \<open>2 ^ 1024 - 2 ^ 970\<close> or more has no double
  and its conversion raises \<open>OverflowError\<close>, \<open>math.ceil\<close> raises on an infinity and on a
  NaN, \<open>math.log\<close> raises on an argument that is not positive, \<open>math.pow\<close> raises when
  the C function overflows. What the hardware and the C library decide is a parameter:
  \<open>rnd\<close> gives the double that an exact result is rounded to (an infinity when it is out
  of range), \<open>libm_pow\<close> and \<open>libm_log\<close> are the C functions on finite doubles.
\<close>

datatype pyfloat = Finite real | PosInf | NegInf | NaN

record fpu =
  rnd :: "real \<Rightarrow> pyfloat"
  libm_pow :: "real \<Rightarrow> real \<Rightarrow> pyfloat"
  libm_log :: "real \<Rightarrow> pyfloat"

text \<open>The comparisons \<open>x <= c\<close> and \<open>x >= c\<close> with a number \<open>c\<close>; both are false of a NaN.\<close>

fun float_le :: "pyfloat \<Rightarrow> real \<Rightarrow> bool" where
  "float_le (Finite v) c = (v \<le> c)"
| "float_le PosInf c = False"
| "float_le NegInf c = True"
| "float_le NaN c = False"

fun float_ge :: "pyfloat \<Rightarrow> real \<Rightarrow> bool" where
  "float_ge (Finite v) c = (v \<ge> c)"
| "float_ge PosInf c = True"
| "float_ge NegInf c = False"
| "float_ge NaN c = False"

definition float_of_int :: "fpu \<Rightarrow> int \<Rightarrow> error + pyfloat" where
  "float_of_int F n =
     (if \<bar>n\<bar> \<ge> 2 ^ 1024 - 2 ^ 970 then Inl OverflowError else Inr (rnd F (real_of_int n)))"

text \<open>The sign of a float that is not a NaN, for the products and quotients of infinities.\<close>

fun float_sign :: "pyfloat \<Rightarrow> real" where
  "float_sign (Finite v) = sgn v"
| "float_sign PosInf = 1"
| "float_sign NegInf = - 1"
| "float_sign NaN = 0"

fun float_mul :: "fpu \<Rightarrow> pyfloat \<Rightarrow> pyfloat \<Rightarrow> pyfloat" where
  "float_mul F NaN b = NaN"
| "float_mul F a NaN = NaN"
| "float_mul F (Finite x) (Finite y) = rnd F (x * y)"
| "float_mul F a b =
     (if float_sign a * float_sign b = 0 then NaN
      else if float_sign a * float_sign b > 0 then PosInf else NegInf)"

fun ieee_div :: "fpu \<Rightarrow> pyfloat \<Rightarrow> pyfloat \<Rightarrow> pyfloat" where
  "ieee_div F NaN b = NaN"
| "ieee_div F a NaN = NaN"
| "ieee_div F (Finite x) (Finite y) = rnd F (x / y)"
| "ieee_div F (Finite x) b = Finite 0"
| "ieee_div F a (Finite y) = (if float_sign a * sgn y > 0 then PosInf else NegInf)"
| "ieee_div F a b = NaN"

definition float_div :: "fpu \<Rightarrow> pyfloat \<Rightarrow> pyfloat \<Rightarrow> error + pyfloat" where
  "float_div F a b = (if b = Finite 0 then Inl ZeroDivisionError else Inr (ieee_div F a b))"

text \<open>
  \<open>math.pow(x, 2)\<close>: a NaN gives a NaN and an infinity the positive infinity; on a finite
  double the C result is returned when it is finite, and an overflow raises.
\<close>

fun math_pow2 :: "fpu \<Rightarrow> pyfloat \<Rightarrow> error + pyfloat" where
  "math_pow2 F NaN = Inr NaN"
| "math_pow2 F PosInf = Inr PosInf"
| "math_pow2 F NegInf = Inr PosInf"
| "math_pow2 F (Finite v) =
     (case libm_pow F v 2 of
        Finite r \<Rightarrow> Inr (Finite r)
      | NaN \<Rightarrow> Inl ValueError
      | _ \<Rightarrow> Inl OverflowError)"

fun math_log :: "fpu \<Rightarrow> pyfloat \<Rightarrow> error + pyfloat" where
  "math_log F NaN = Inr NaN"
| "math_log F PosInf = Inr PosInf"
| "math_log F NegInf = Inl ValueError"
| "math_log F (Finite v) = (if v > 0 then Inr (libm_log F v) else Inl ValueError)"

fun math_ceil :: "pyfloat \<Rightarrow> error + int" where
  "math_ceil (Finite v) = Inr \<lceil>v\<rceil>"
| "math_ceil NaN = Inl ValueError"
| "math_ceil x = Inl OverflowError"

subsection \<open>\<open>calculate_threshold\<close>\<close>

text \<open>
  The expression of lines 51 to 54, in Python's order of evaluation: the quotient
  \<open>12.0 / math.pow(\<dots>, 2)\<close> first, then the argument of the logarithm (with the conversion
  of the stream size to a float), the logarithm, the product and the ceiling.
\<close>

definition threshold_formula :: "fpu \<Rightarrow> int \<Rightarrow> pyfloat \<Rightarrow> pyfloat \<Rightarrow> error + int" where
  "threshold_formula F stream_size tolerance failure =
     (case math_pow2 F tolerance of Inl e \<Rightarrow> Inl e | Inr p \<Rightarrow>
      case float_div F (Finite 12) p of Inl e \<Rightarrow> Inl e | Inr a \<Rightarrow>
      case float_of_int F stream_size of Inl e \<Rightarrow> Inl e | Inr nf \<Rightarrow>
      case float_div F (float_mul F (Finite 8) nf) failure of Inl e \<Rightarrow> Inl e | Inr q \<Rightarrow>
      case math_log F q of Inl e \<Rightarrow> Inl e | Inr l \<Rightarrow>
      math_ceil (float_mul F a l))"

definition calculate_threshold :: "fpu \<Rightarrow> int \<Rightarrow> pyfloat \<Rightarrow> pyfloat \<Rightarrow> error + int" where
  "calculate_threshold F stream_size tolerance failure =
     (if float_le tolerance 0 \<or> float_ge tolerance 1 then Inl ValueError
      else if float_le failure 0 \<or> float_ge failure 1 then Inl ValueError
      else if stream_size \<le> 0 then Inl ValueError
      else threshold_formula F stream_size tolerance failure)"

subsection \<open>Python sets\<close>

text \<open>
  The type \<open>set\<close> is library code, and the order in which a set iterates is decided by
  the hashes of its elements and the history of its table. A set implementation is a
  parameter: a type \<open>'c\<close> of tables with the empty set, the membership test, \<open>add\<close>,
  \<open>remove\<close> and the list of the elements in iteration order. \<open>len\<close> is the number of
  elements the set iterates over.
\<close>

record ('a, 'c) set_impl =
  set_empty :: 'c
  set_contains :: "'a \<Rightarrow> 'c \<Rightarrow> bool"
  set_add :: "'a \<Rightarrow> 'c \<Rightarrow> 'c"
  set_remove :: "'a \<Rightarrow> 'c \<Rightarrow> 'c"
  set_iter :: "'c \<Rightarrow> 'a list"

definition set_len :: "('a, 'c) set_impl \<Rightarrow> 'c \<Rightarrow> nat" where
  "set_len P c = length (set_iter P c)"

text \<open>A set built from the values of a comprehension: each is added to an empty set.\<close>

definition set_of_list :: "('a, 'c) set_impl \<Rightarrow> 'a list \<Rightarrow> 'c" where
  "set_of_list P vs = foldl (\<lambda>c v. set_add P v c) (set_empty P) vs"

subsection \<open>The instance\<close>

text \<open>
  The attribute \<open>_threshold\<close> is an integer or a callable; a callable is a function that
  returns a threshold or raises. \<open>random.Random\<close> is library code: a generator is the
  sequence of the values its successive \<open>random()\<close> calls return, and the function from
  a seed to that sequence is a parameter \<open>gen\<close> of everything that seeds a generator.
  \<open>cur_probability\<close> starts at 1 and is only ever divided by 2, which is exact in doubles
  down to \<open>2 ^ -1074\<close>; it is a real number here. The lock is not modelled: every function
  below is one thread's view.
\<close>

datatype threshold_type = Fixed int | Callable "int \<Rightarrow> pyfloat \<Rightarrow> pyfloat \<Rightarrow> error + int"

type_synonym generator = "nat \<Rightarrow> real"

record 'c DES =
  threshold :: threshold_type
  threshold_hit_count :: int
  relative_error_tolerance :: pyfloat
  failure_probability :: pyfloat
  seed :: int
  acc_set :: 'c
  cur_probability :: real
  rand :: generator
  distinct_item_count :: int

definition rand_random :: "generator \<Rightarrow> real \<times> generator" where
  "rand_random r = (r 0, \<lambda>k. r (Suc k))"

definition reset :: "('a, 'c) set_impl \<Rightarrow> (int \<Rightarrow> generator) \<Rightarrow> 'c DES \<Rightarrow> 'c DES" where
  "reset P gen s =
     s\<lparr>distinct_item_count := 0,
       threshold_hit_count := 0,
       rand := gen (seed s),
       acc_set := set_empty P,
       cur_probability := 1\<rparr>"

text \<open>
  \<open>__init__\<close> stores the configuration and calls \<open>reset\<close>. Without a seed it draws one from
  the module-level generator; that draw is the argument \<open>ambient\<close>.
\<close>

definition des_init ::
  "('a, 'c) set_impl \<Rightarrow> (int \<Rightarrow> generator) \<Rightarrow> threshold_type \<Rightarrow> pyfloat \<Rightarrow> pyfloat
     \<Rightarrow> int option \<Rightarrow> int \<Rightarrow> 'c DES" where
  "des_init P gen thr tolerance failure seed_arg ambient =
     reset P gen
       \<lparr>threshold = thr,
        threshold_hit_count = 0,
        relative_error_tolerance = tolerance,
        failure_probability = failure,
        seed = (case seed_arg of Some sd \<Rightarrow> sd | None \<Rightarrow> ambient),
        acc_set = set_empty P,
        cur_probability = 1,
        rand = gen (case seed_arg of Some sd \<Rightarrow> sd | None \<Rightarrow> ambient),
        distinct_item_count = 0\<rparr>"

definition get_threshold :: "'c DES \<Rightarrow> int \<Rightarrow> error + int" where
  "get_threshold s stream_size =
     (case threshold s of
        Callable f \<Rightarrow> f stream_size (relative_error_tolerance s) (failure_probability s)
      | Fixed t \<Rightarrow> Inr t)"


subsection \<open>\<open>distinct\<close>\<close>

text \<open>
  The condition of the set comprehension at lines 158 to 160, over the elements in
  iteration order: one draw for each element, and the element is a value of the
  comprehension when its draw is at least one half.
\<close>

fun retained :: "'a list \<Rightarrow> generator \<Rightarrow> 'a list \<times> generator" where
  "retained [] r = ([], r)"
| "retained (v # vs) r =
     (let (u, r') = rand_random r;
          (kept, r'') = retained vs r'
      in (if u \<ge> 0.5 then v # kept else kept, r''))"

text \<open>The comprehension: it iterates the set and builds a new set from the values.\<close>

definition down_sample :: "('a, 'c) set_impl \<Rightarrow> 'c \<Rightarrow> generator \<Rightarrow> 'c \<times> generator" where
  "down_sample P c r =
     (let (kept, r') = retained (set_iter P c) r in (set_of_list P kept, r'))"

text \<open>
  The block under the first lock, lines 148 to 167. The state it returns with an error
  is the state the instance is left in when the exception propagates.
\<close>

definition process_item ::
  "('a, 'c) set_impl \<Rightarrow> int \<Rightarrow> 'a \<Rightarrow> 'c DES \<Rightarrow> error option \<times> 'c DES" where
  "process_item P thresh item s =
     (let s1 = (if set_contains P item (acc_set s)
                then s\<lparr>acc_set := set_remove P item (acc_set s)\<rparr> else s);
          (u, r1) = rand_random (rand s1);
          s2 = s1\<lparr>rand := r1\<rparr>;
          s3 = (if u < cur_probability s2
                then s2\<lparr>acc_set := set_add P item (acc_set s2)\<rparr> else s2)
      in if int (set_len P (acc_set s3)) \<ge> thresh then
           (let s4 = s3\<lparr>threshold_hit_count := threshold_hit_count s3 + 1\<rparr>;
                (kept, r2) = down_sample P (acc_set s4) (rand s4);
                s5 = s4\<lparr>acc_set := kept, rand := r2\<rparr>;
                s6 = s5\<lparr>cur_probability := cur_probability s5 / 2\<rparr>;
                set_size = int (set_len P (acc_set s6))
            in if set_size \<ge> thresh then (Some OverflowError, s6) else (None, s6))
         else (None, s3))"

text \<open>
  The accumulator of \<open>process_item\<close> at line 154, after the removal and the insertion and
  before the comparison with the threshold. It is a name for the theorems, not a function
  of the source.
\<close>

definition inserted :: "('a, 'c) set_impl \<Rightarrow> 'a \<Rightarrow> 'c DES \<Rightarrow> 'c" where
  "inserted P item s =
     (let c = (if set_contains P item (acc_set s) then set_remove P item (acc_set s)
               else acc_set s)
      in if rand s 0 < cur_probability s then set_add P item c else c)"

text \<open>
  The assignment to \<open>distinct_item_count\<close>, lines 171 to 173 and 179 to 181. Python's
  division raises when the divisor is zero.
\<close>

definition update_count :: "('a, 'c) set_impl \<Rightarrow> 'c DES \<Rightarrow> error + 'c DES" where
  "update_count P s =
     (if cur_probability s = 0 then Inl ZeroDivisionError
      else Inr (s\<lparr>distinct_item_count :=
                    \<lfloor>real (set_len P (acc_set s)) / cur_probability s\<rfloor>\<rparr>))"

text \<open>
  One execution of the loop body on the poll counter \<open>i\<close> and the instance. \<open>i % poll_rate\<close>
  raises when \<open>poll_rate\<close> is zero; Python's \<open>%\<close> on integers is \<open>mod\<close>.
\<close>

definition loop_body ::
  "('a, 'c) set_impl \<Rightarrow> int \<Rightarrow> int \<Rightarrow> 'a \<Rightarrow> int \<times> 'c DES \<Rightarrow> error option \<times> (int \<times> 'c DES)" where
  "loop_body P thresh poll_rate item c =
     (case c of (i, s) \<Rightarrow>
       (case process_item P thresh item s of
          (Some e, s') \<Rightarrow> (Some e, (i, s'))
        | (None, s') \<Rightarrow>
            if poll_rate = 0 then (Some ZeroDivisionError, (i, s'))
            else if i mod poll_rate = 0 then
              (case update_count P s' of
                 Inl e \<Rightarrow> (Some e, (i, s'))
               | Inr s'' \<Rightarrow> (None, (0 + 1, s'')))
            else (None, (i + 1, s'))))"

text \<open>
  The \<open>while\<close> loop. A stream is the list of the values its iterator yields; a value is
  \<open>None\<close> (Python's \<open>None\<close>) or \<open>Some x\<close>. \<open>next(stream, None)\<close> returns \<open>None\<close> when the
  iterator is exhausted and when the next value is \<open>None\<close>, and the loop ends on both.
\<close>

fun loop ::
  "('a, 'c) set_impl \<Rightarrow> int \<Rightarrow> int \<Rightarrow> int \<times> 'c DES \<Rightarrow> 'a option list
     \<Rightarrow> error option \<times> (int \<times> 'c DES)" where
  "loop P thresh poll_rate c [] = (None, c)"
| "loop P thresh poll_rate c (None # stream) = (None, c)"
| "loop P thresh poll_rate c (Some item # stream) =
     (case loop_body P thresh poll_rate item c of
        (Some e, c') \<Rightarrow> (Some e, c')
      | (None, c') \<Rightarrow> loop P thresh poll_rate c' stream)"

definition des_distinct ::
  "('a, 'c) set_impl \<Rightarrow> (int \<Rightarrow> generator) \<Rightarrow> 'c DES \<Rightarrow> 'a option list \<Rightarrow> int \<Rightarrow> bool \<Rightarrow> int
     \<Rightarrow> (error + int) \<times> 'c DES" where
  "des_distinct P gen s stream stream_size reset_state poll_rate =
     (let s0 = (if reset_state then reset P gen s else s) in
      case get_threshold s0 stream_size of
        Inl e \<Rightarrow> (Inl e, s0)
      | Inr thresh \<Rightarrow>
          if \<not> thresh > 0 then (Inl AssertionError, s0)
          else
            (case loop P thresh poll_rate (0, s0) stream of
               (Some e, (i, s1)) \<Rightarrow> (Inl e, s1)
             | (None, (i, s1)) \<Rightarrow>
                 (case update_count P s1 of
                    Inl e \<Rightarrow> (Inl e, s1)
                  | Inr s2 \<Rightarrow> (Inr (distinct_item_count s2), s2))))"



subsection \<open>What the theorems assume of the libraries\<close>

text \<open>
  A set implementation behaves as a set: the empty set iterates over nothing, membership
  is membership in the iteration, \<open>add\<close> and \<open>remove\<close> insert and delete the element and
  no other, and an iteration without repetitions stays so.
\<close>

definition valid_set :: "('a, 'c) set_impl \<Rightarrow> bool" where
  "valid_set P =
     (set_iter P (set_empty P) = []
      \<and> (\<forall>x c. set_contains P x c = (x \<in> set (set_iter P c)))
      \<and> (\<forall>x c. set (set_iter P (set_add P x c)) = insert x (set (set_iter P c)))
      \<and> (\<forall>x c. set (set_iter P (set_remove P x c)) = set (set_iter P c) - {x})
      \<and> (\<forall>x c. distinct (set_iter P c) \<longrightarrow> distinct (set_iter P (set_add P x c)))
      \<and> (\<forall>x c. distinct (set_iter P c) \<longrightarrow> distinct (set_iter P (set_remove P x c))))"

text \<open>The order of the floats; a NaN is not comparable, not even with itself.\<close>

fun float_leq :: "pyfloat \<Rightarrow> pyfloat \<Rightarrow> bool" where
  "float_leq NaN b = False"
| "float_leq a NaN = False"
| "float_leq NegInf b = True"
| "float_leq a PosInf = True"
| "float_leq (Finite x) (Finite y) = (x \<le> y)"
| "float_leq a b = False"

text \<open>
  Rounding to the nearest double is monotone, never gives a NaN, and is exact on the
  integers up to \<open>2 ^ 53\<close>. Of the C library: the square of a double between 0 and 1 is a
  double between 0 and 1, and the logarithm of a double that is at least 8 is a double
  that is at least 1 (the exact logarithm of 8 is above 2).
\<close>

definition sane_fpu :: "fpu \<Rightarrow> bool" where
  "sane_fpu F =
     ((\<forall>x y. x \<le> y \<longrightarrow> float_leq (rnd F x) (rnd F y))
      \<and> (\<forall>k::int. \<bar>k\<bar> \<le> 2 ^ 53 \<longrightarrow> rnd F (real_of_int k) = Finite (real_of_int k))
      \<and> (\<forall>e. 0 < e \<longrightarrow> e < 1 \<longrightarrow> (\<exists>p. libm_pow F e 2 = Finite p \<and> 0 \<le> p \<and> p \<le> 1))
      \<and> (\<forall>y. 8 \<le> y \<longrightarrow> (\<exists>l. libm_log F y = Finite l \<and> 1 \<le> l)))"


subsection \<open>Relations between instances\<close>

text \<open>
  The relation between two instances of which the second comes from the first by \<open>k\<close>
  down-sampling events: the counter grew by \<open>k\<close> and the probability was halved \<open>k\<close> times.
\<close>

definition halved :: "'c DES \<Rightarrow> 'c DES \<Rightarrow> bool" where
  "halved s s' =
     (\<exists>k. threshold_hit_count s' = threshold_hit_count s + int k
        \<and> cur_probability s' = cur_probability s / 2 ^ k)"


subsection \<open>Instances of the parameters, for the evaluations\<close>

text \<open>
  A generator that returns the values of a list and then zero, and a constant family of
  generators.
\<close>

definition draws_of :: "real list \<Rightarrow> generator" where
  "draws_of ds = (\<lambda>k. if k < length ds then ds ! k else 0)"

definition example_gen :: "int \<Rightarrow> generator" where
  "example_gen sd = draws_of [1 / 4, 3 / 4, 1 / 4, 3 / 4]"

text \<open>
  Two sets of natural numbers. The first iterates in increasing order, as a CPython set
  of small integers does (an integer is its own hash). The second iterates in decreasing
  order: the same elements under hashes that order them the other way round.
\<close>

definition ascending_set :: "(nat, nat list) set_impl" where
  "ascending_set =
     \<lparr>set_empty = [],
      set_contains = (\<lambda>x c. x \<in> set c),
      set_add = (\<lambda>x c. if x \<in> set c then c else insort x c),
      set_remove = (\<lambda>x c. removeAll x c),
      set_iter = (\<lambda>c. c)\<rparr>"

definition descending_set :: "(nat, nat list) set_impl" where
  "descending_set =
     \<lparr>set_empty = [],
      set_contains = (\<lambda>x c. x \<in> set c),
      set_add = (\<lambda>x c. if x \<in> set c then c else insort x c),
      set_remove = (\<lambda>x c. removeAll x c),
      set_iter = (\<lambda>c. rev c)\<rparr>"

text \<open>Arithmetic without rounding error and without a largest double.\<close>

definition exact_fpu :: fpu where
  "exact_fpu =
     \<lparr>rnd = (\<lambda>x. Finite x),
      libm_pow = (\<lambda>x y. Finite (x ^ nat \<lfloor>y\<rfloor>)),
      libm_log = (\<lambda>y. Finite (ln y))\<rparr>"

text \<open>
  An instance with the fixed threshold \<open>t\<close>, that instance with the threshold 2 after one
  call, an instance with the threshold function of the module, and that instance after one
  call on a stream of one item.
\<close>

definition example_des :: "int \<Rightarrow> nat list DES" where
  "example_des t =
     des_init ascending_set example_gen (Fixed t) (Finite (1 / 8)) (Finite (1 / 16)) (Some 42) 0"

definition used_des :: "nat list DES" where
  "used_des =
     snd (des_distinct ascending_set example_gen (example_des 2) [Some 1, Some 2] 2 False 10)"

definition default_des :: "nat list DES" where
  "default_des =
     des_init ascending_set example_gen (Callable (calculate_threshold exact_fpu))
       (Finite (1 / 8)) (Finite (1 / 16)) (Some 42) 0"

definition used_default_des :: "nat list DES" where
  "used_default_des =
     snd (des_distinct ascending_set example_gen default_des [Some 1] 1 False 10)"

subsection \<open>The double of the formula\<close>

text \<open>
  The value of \<open>math.log\<close> where it returns, and the double that lines 51 to 54 hand to
  \<open>math.ceil\<close> when no operation before it raises.
\<close>

definition log_value :: "fpu \<Rightarrow> pyfloat \<Rightarrow> pyfloat" where
  "log_value F q = (case q of Finite v \<Rightarrow> libm_log F v | _ \<Rightarrow> q)"

definition formula_float :: "fpu \<Rightarrow> int \<Rightarrow> real \<Rightarrow> real \<Rightarrow> pyfloat" where
  "formula_float F stream_size e d =
     float_mul F (ieee_div F (Finite 12) (libm_pow F e 2))
       (log_value F (ieee_div F (float_mul F (Finite 8) (rnd F (real_of_int stream_size)))
          (Finite d)))"

section \<open>The update of one item\<close>

lemma retained_closed:
  "retained vs r =
     (map fst (filter (\<lambda>(v, u). u \<ge> 0.5) (zip vs (map r [0..<length vs]))),
      \<lambda>k. r (k + length vs))"
proof (induction vs arbitrary: r)
  case Nil
  show ?case by simp
next
  case (Cons v vs)
  have "map r [0..<Suc (length vs)] = r 0 # map (\<lambda>k. r (Suc k)) [0..<length vs]"
    by (rule map_upt_Suc)
  then show ?case
    by (simp add: rand_random_def Cons.IH del: upt_Suc)
qed

lemma retained_members:
  "set (fst (retained vs r)) = {vs ! k | k. k < length vs \<and> 1 / 2 \<le> r k}"
proof -
  have "set (fst (retained vs r))
      = fst ` {p \<in> set (zip vs (map r [0..<length vs])). 1 / 2 \<le> snd p}"
    by (auto simp: retained_closed)
  also have "\<dots> = {vs ! k | k. k < length vs \<and> 1 / 2 \<le> r k}"
    by (force simp: set_zip image_iff)
  finally show ?thesis .
qed

text \<open>
  The block with its intermediate instances folded away: the set after the removal and
  the insertion, then either that set or the outcome of one down-sampling pass.
\<close>

lemma process_item_unfold:
  "process_item P thresh item s =
     (if int (set_len P (inserted P item s)) < thresh then
        (None, s\<lparr>acc_set := inserted P item s, rand := \<lambda>k. rand s (Suc k)\<rparr>)
      else
        (if int (set_len P (fst (down_sample P (inserted P item s) (\<lambda>k. rand s (Suc k))))) \<ge> thresh
         then Some OverflowError else None,
         s\<lparr>acc_set := fst (down_sample P (inserted P item s) (\<lambda>k. rand s (Suc k))),
           cur_probability := cur_probability s / 2,
           threshold_hit_count := threshold_hit_count s + 1,
           rand := snd (down_sample P (inserted P item s) (\<lambda>k. rand s (Suc k)))\<rparr>))"
proof -
  define c where
    "c = (if set_contains P item (acc_set s) then set_remove P item (acc_set s) else acc_set s)"
  define s1 where
    "s1 = (if set_contains P item (acc_set s)
           then s\<lparr>acc_set := set_remove P item (acc_set s)\<rparr> else s)"
  have s1: "s1 = s\<lparr>acc_set := c\<rparr>"
    by (simp add: s1_def c_def)
  have ins: "inserted P item s = (if rand s 0 < cur_probability s then set_add P item c else c)"
    by (simp add: inserted_def c_def)
  show ?thesis
    unfolding process_item_def s1_def [symmetric]
    by (simp add: s1 ins rand_random_def Let_def split_beta)
qed

lemma down_sample_closed:
  "down_sample P c r =
     (set_of_list P (map fst (filter (\<lambda>(v, u). u \<ge> 0.5)
        (zip (set_iter P c) (map r [0..<set_len P c])))),
      \<lambda>k. r (k + set_len P c))"
  by (simp add: down_sample_def retained_closed set_len_def)

lemma valid_set_of_list:
  assumes "valid_set P"
  shows "set (set_iter P (set_of_list P vs)) = set vs"
    and "distinct (set_iter P (set_of_list P vs))"
proof -
  have step: "set (set_iter P (foldl (\<lambda>c v. set_add P v c) c0 vs)) = set (set_iter P c0) \<union> set vs
      \<and> (distinct (set_iter P c0) \<longrightarrow> distinct (set_iter P (foldl (\<lambda>c v. set_add P v c) c0 vs)))"
    for c0
  proof (induction vs arbitrary: c0)
    case Nil
    show ?case by simp
  next
    case (Cons v vs)
    have a: "set (set_iter P (set_add P v c0)) = insert v (set (set_iter P c0))"
      using assms unfolding valid_set_def by blast
    have d: "distinct (set_iter P c0) \<longrightarrow> distinct (set_iter P (set_add P v c0))"
      using assms unfolding valid_set_def by blast
    show ?case
      using Cons.IH [of "set_add P v c0"] a d by auto
  qed
  have e: "set_iter P (set_empty P) = []"
    using assms unfolding valid_set_def by blast
  show "set (set_iter P (set_of_list P vs)) = set vs"
    using step [of "set_empty P"] e by (simp add: set_of_list_def)
  show "distinct (set_iter P (set_of_list P vs))"
    using step [of "set_empty P"] e by (simp add: set_of_list_def)
qed

lemma valid_inserted:
  assumes "valid_set P"
  shows "set (set_iter P (inserted P item s))
           = (set (set_iter P (acc_set s)) - {item})
               \<union> (if rand s 0 < cur_probability s then {item} else {})"
    and "distinct (set_iter P (acc_set s)) \<Longrightarrow> distinct (set_iter P (inserted P item s))"
proof -
  define c where
    "c = (if set_contains P item (acc_set s) then set_remove P item (acc_set s) else acc_set s)"
  have m: "set_contains P item (acc_set s) = (item \<in> set (set_iter P (acc_set s)))"
    using assms unfolding valid_set_def by blast
  have r: "set (set_iter P (set_remove P item (acc_set s))) = set (set_iter P (acc_set s)) - {item}"
    using assms unfolding valid_set_def by blast
  have c: "set (set_iter P c) = set (set_iter P (acc_set s)) - {item}"
    using m r by (auto simp: c_def)
  have a: "set (set_iter P (set_add P item c)) = insert item (set (set_iter P c))"
    using assms unfolding valid_set_def by blast
  have ins: "inserted P item s = (if rand s 0 < cur_probability s then set_add P item c else c)"
    by (simp add: inserted_def c_def)
  show "set (set_iter P (inserted P item s))
           = (set (set_iter P (acc_set s)) - {item})
               \<union> (if rand s 0 < cur_probability s then {item} else {})"
    using c a by (simp add: ins)
  assume d0: "distinct (set_iter P (acc_set s))"
  have "distinct (set_iter P (set_remove P item (acc_set s)))"
    using assms d0 unfolding valid_set_def by blast
  then have dc: "distinct (set_iter P c)"
    using d0 by (simp add: c_def)
  then have "distinct (set_iter P (set_add P item c))"
    using assms unfolding valid_set_def by blast
  then show "distinct (set_iter P (inserted P item s))"
    using dc by (simp add: ins)
qed

text \<open>
  C1. The update of one item, in this order, for every set implementation. The item is
  removed when the accumulator contains it; one value \<open>rand s 0\<close> is drawn and the item
  is added exactly when that value is below \<open>cur_probability\<close>; when the accumulator then
  has at least \<open>thresh\<close> elements, each of its \<open>n\<close> elements, in the order in which the set
  iterates, is paired with its own next draw \<open>rand s 1, \<dots>, rand s n\<close> and is a value of the
  comprehension exactly when that draw is at least one half, the new accumulator is the
  set of these values, \<open>cur_probability\<close> is halved and \<open>threshold_hit_count\<close> grows by one.
  Without a down-sampling event one draw is consumed, with one \<open>n + 1\<close> draws. For a set
  implementation that behaves as a set, and an accumulator that iterates without
  repetitions, the elements after the insertion are the old ones without the item, and
  the item when it was added; the elements after a down-sampling event are those whose
  draw was at least one half, each once.
\<close>

theorem process_item_steps:
  fixes P :: "('a, 'c) set_impl"
  shows "process_item P thresh item s =
     (let removed = (if set_contains P item (acc_set s)
                     then set_remove P item (acc_set s) else acc_set s);
          u = rand s 0;
          added = (if u < cur_probability s then set_add P item removed else removed);
          n = set_len P added
      in if int n < thresh then
           (None, s\<lparr>acc_set := added, rand := \<lambda>k. rand s (Suc k)\<rparr>)
         else
           (let values = map fst (filter (\<lambda>(v, d). d \<ge> 0.5)
                           (zip (set_iter P added) (map (\<lambda>k. rand s (Suc k)) [0..<n])));
                kept = set_of_list P values
            in (if int (set_len P kept) \<ge> thresh then Some OverflowError else None,
                s\<lparr>acc_set := kept,
                  cur_probability := cur_probability s / 2,
                  threshold_hit_count := threshold_hit_count s + 1,
                  rand := \<lambda>k. rand s (Suc (k + n))\<rparr>)))
   \<and> (valid_set P \<longrightarrow> distinct (set_iter P (acc_set s)) \<longrightarrow>
        set (set_iter P (inserted P item s))
          = (set (set_iter P (acc_set s)) - {item})
              \<union> (if rand s 0 < cur_probability s then {item} else {})
        \<and> distinct (set_iter P (inserted P item s))
        \<and> distinct (set_iter P (acc_set (snd (process_item P thresh item s))))
        \<and> (thresh \<le> int (set_len P (inserted P item s)) \<longrightarrow>
             set (set_iter P (acc_set (snd (process_item P thresh item s))))
               = {set_iter P (inserted P item s) ! k | k.
                    k < set_len P (inserted P item s) \<and> 1 / 2 \<le> rand s (Suc k)}))"
proof -
  define K :: "'c \<Rightarrow> generator \<Rightarrow> nat \<Rightarrow> 'c" where
    "K = (\<lambda>c r n. set_of_list P (map fst (filter (\<lambda>(v, d). d \<ge> 0.5)
            (zip (set_iter P c) (map r [0..<n])))))"
  have ds: "down_sample P c r = (K c r (set_len P c), \<lambda>k. r (k + set_len P c))" for c r
    unfolding K_def by (rule down_sample_closed)
  have "process_item P thresh item s =
     (let removed = (if set_contains P item (acc_set s)
                     then set_remove P item (acc_set s) else acc_set s);
          u = rand s 0;
          added = (if u < cur_probability s then set_add P item removed else removed);
          n = set_len P added
      in if int n < thresh then
           (None, s\<lparr>acc_set := added, rand := \<lambda>k. rand s (Suc k)\<rparr>)
         else
           (let kept = K added (\<lambda>k. rand s (Suc k)) n
            in (if int (set_len P kept) \<ge> thresh then Some OverflowError else None,
                s\<lparr>acc_set := kept,
                  cur_probability := cur_probability s / 2,
                  threshold_hit_count := threshold_hit_count s + 1,
                  rand := \<lambda>k. rand s (Suc (k + n))\<rparr>)))"
    by (simp add: process_item_unfold inserted_def ds Let_def)
  then have A: "process_item P thresh item s =
     (let removed = (if set_contains P item (acc_set s)
                     then set_remove P item (acc_set s) else acc_set s);
          u = rand s 0;
          added = (if u < cur_probability s then set_add P item removed else removed);
          n = set_len P added
      in if int n < thresh then
           (None, s\<lparr>acc_set := added, rand := \<lambda>k. rand s (Suc k)\<rparr>)
         else
           (let values = map fst (filter (\<lambda>(v, d). d \<ge> 0.5)
                           (zip (set_iter P added) (map (\<lambda>k. rand s (Suc k)) [0..<n])));
                kept = set_of_list P values
            in (if int (set_len P kept) \<ge> thresh then Some OverflowError else None,
                s\<lparr>acc_set := kept,
                  cur_probability := cur_probability s / 2,
                  threshold_hit_count := threshold_hit_count s + 1,
                  rand := \<lambda>k. rand s (Suc (k + n))\<rparr>)))"
    unfolding K_def Let_def .
  have B: "valid_set P \<longrightarrow> distinct (set_iter P (acc_set s)) \<longrightarrow>
        set (set_iter P (inserted P item s))
          = (set (set_iter P (acc_set s)) - {item})
              \<union> (if rand s 0 < cur_probability s then {item} else {})
        \<and> distinct (set_iter P (inserted P item s))
        \<and> distinct (set_iter P (acc_set (snd (process_item P thresh item s))))
        \<and> (thresh \<le> int (set_len P (inserted P item s)) \<longrightarrow>
             set (set_iter P (acc_set (snd (process_item P thresh item s))))
               = {set_iter P (inserted P item s) ! k | k.
                    k < set_len P (inserted P item s) \<and> 1 / 2 \<le> rand s (Suc k)})"
  proof (intro impI)
    assume v: "valid_set P" and d: "distinct (set_iter P (acc_set s))"
    have i1: "set (set_iter P (inserted P item s))
          = (set (set_iter P (acc_set s)) - {item})
              \<union> (if rand s 0 < cur_probability s then {item} else {})"
      using v by (rule valid_inserted(1))
    have i2: "distinct (set_iter P (inserted P item s))"
      using v d by (rule valid_inserted(2))
    have pass: "acc_set (snd (process_item P thresh item s))
        = set_of_list P (fst (retained (set_iter P (inserted P item s)) (\<lambda>k. rand s (Suc k))))"
      if "thresh \<le> int (set_len P (inserted P item s))"
      using that by (simp add: process_item_unfold down_sample_def split_beta)
    have i3: "distinct (set_iter P (acc_set (snd (process_item P thresh item s))))"
    proof (cases "thresh \<le> int (set_len P (inserted P item s))")
      case True
      then show ?thesis
        using valid_set_of_list(2) [OF v] by (simp add: pass)
    next
      case False
      then show ?thesis
        using i2 by (simp add: process_item_unfold)
    qed
    have i4: "thresh \<le> int (set_len P (inserted P item s)) \<longrightarrow>
             set (set_iter P (acc_set (snd (process_item P thresh item s))))
               = {set_iter P (inserted P item s) ! k | k.
                    k < set_len P (inserted P item s) \<and> 1 / 2 \<le> rand s (Suc k)}"
    proof
      assume t: "thresh \<le> int (set_len P (inserted P item s))"
      show "set (set_iter P (acc_set (snd (process_item P thresh item s))))
               = {set_iter P (inserted P item s) ! k | k.
                    k < set_len P (inserted P item s) \<and> 1 / 2 \<le> rand s (Suc k)}"
        using valid_set_of_list(1) [OF v]
        by (simp add: pass [OF t] retained_members set_len_def)
    qed
    show "set (set_iter P (inserted P item s))
          = (set (set_iter P (acc_set s)) - {item})
              \<union> (if rand s 0 < cur_probability s then {item} else {})
        \<and> distinct (set_iter P (inserted P item s))
        \<and> distinct (set_iter P (acc_set (snd (process_item P thresh item s))))
        \<and> (thresh \<le> int (set_len P (inserted P item s)) \<longrightarrow>
             set (set_iter P (acc_set (snd (process_item P thresh item s))))
               = {set_iter P (inserted P item s) ! k | k.
                    k < set_len P (inserted P item s) \<and> 1 / 2 \<le> rand s (Suc k)})"
      using i1 i2 i3 i4 by (intro conjI)
  qed
  show ?thesis
    using A B by (rule conjI)
qed

lemma valid_ascending_set: "valid_set ascending_set"
  by (simp add: valid_set_def ascending_set_def set_insort_key distinct_insort distinct_removeAll
      insert_absorb)


text \<open>The equations that evaluate a run at a concrete instance.\<close>

lemmas run_simps = des_distinct_def get_threshold_def loop_body_def process_item_unfold
  inserted_def update_count_def reset_def des_init_def example_des_def example_gen_def
  draws_of_def rand_random_def down_sample_def set_of_list_def set_len_def
  ascending_set_def descending_set_def

theorem process_item_steps_witness:
  "valid_set ascending_set
   \<and> distinct (set_iter ascending_set
        (acc_set (snd (process_item ascending_set 2 (2::nat) (example_des 2)))))
   \<and> set_iter ascending_set
        (inserted ascending_set (1::nat) (snd (process_item ascending_set 2 (2::nat) (example_des 2))))
       = [1, 2]
   \<and> (2::int) \<le> int (set_len ascending_set
        (inserted ascending_set (1::nat) (snd (process_item ascending_set 2 (2::nat) (example_des 2)))))
   \<and> rand (snd (process_item ascending_set 2 (2::nat) (example_des 2))) (Suc 0) = 1 / 4
   \<and> rand (snd (process_item ascending_set 2 (2::nat) (example_des 2))) (Suc 1) = 3 / 4
   \<and> acc_set (snd (process_item ascending_set 2 (1::nat)
        (snd (process_item ascending_set 2 (2::nat) (example_des 2))))) = [2]
   \<and> set (set_iter ascending_set (acc_set (snd (process_item ascending_set 2 (1::nat)
        (snd (process_item ascending_set 2 (2::nat) (example_des 2)))))))
       = {set_iter ascending_set (inserted ascending_set (1::nat)
             (snd (process_item ascending_set 2 (2::nat) (example_des 2)))) ! k | k.
            k < set_len ascending_set (inserted ascending_set (1::nat)
                  (snd (process_item ascending_set 2 (2::nat) (example_des 2))))
            \<and> 1 / 2 \<le> rand (snd (process_item ascending_set 2 (2::nat) (example_des 2))) (Suc k)}"
proof -
  define S where "S = snd (process_item ascending_set 2 (2::nat) (example_des 2))"
  have d: "distinct (set_iter ascending_set (acc_set S))"
    by (simp add: S_def run_simps)
  have i: "set_iter ascending_set (inserted ascending_set (1::nat) S) = [1, 2]"
    by (simp add: S_def run_simps)
  have t: "(2::int) \<le> int (set_len ascending_set (inserted ascending_set (1::nat) S))"
    by (simp add: S_def run_simps)
  have r: "rand S (Suc 0) = 1 / 4" "rand S (Suc 1) = 3 / 4"
    by (simp_all add: S_def run_simps)
  have a: "acc_set (snd (process_item ascending_set 2 (1::nat) S)) = [2]"
    by (simp add: S_def run_simps)
  have "set (set_iter ascending_set (acc_set (snd (process_item ascending_set 2 (1::nat) S))))
       = {set_iter ascending_set (inserted ascending_set (1::nat) S) ! k | k.
            k < set_len ascending_set (inserted ascending_set (1::nat) S)
            \<and> 1 / 2 \<le> rand S (Suc k)}"
    using process_item_steps [of ascending_set 2 1 S] valid_ascending_set d t by blast
  then show ?thesis
    using valid_ascending_set d i t r a unfolding S_def by (intro conjI)
qed

lemma process_item_error: "fst (process_item P thresh item s) = None \<or> fst (process_item P thresh item s) = Some OverflowError"
  by (simp add: process_item_unfold)

lemma process_item_size:
  assumes "process_item P thresh item s = (None, s')"
  shows "int (set_len P (acc_set s')) < thresh"
  using assms by (auto simp: process_item_unfold split: if_splits)

lemma process_item_halving:
  assumes "process_item P thresh item s = (e, s')"
  shows "(cur_probability s' = cur_probability s \<and> threshold_hit_count s' = threshold_hit_count s)
       \<or> (cur_probability s' = cur_probability s / 2 \<and> threshold_hit_count s' = threshold_hit_count s + 1)"
  using assms by (auto simp: process_item_unfold split: if_splits)


lemma update_count_eq:
  assumes "update_count P s = Inr s'"
  shows "s' = s\<lparr>distinct_item_count := \<lfloor>real (set_len P (acc_set s)) / cur_probability s\<rfloor>\<rparr>"
    and "cur_probability s \<noteq> 0"
  using assms by (auto simp: update_count_def split: if_splits)

lemma loop_body_cases:
  assumes "loop_body P thresh poll_rate item (i, s) = (e, (i', s'))"
  obtains
    (raised) "process_item P thresh item s = (Some OverflowError, s')" "e = Some OverflowError"
  | (modulo) "process_item P thresh item s = (None, s')" "poll_rate = 0" "e = Some ZeroDivisionError"
  | (division) "process_item P thresh item s = (None, s')" "poll_rate \<noteq> 0" "i mod poll_rate = 0"
      "cur_probability s' = 0" "e = Some ZeroDivisionError"
  | (polled) s1 where "process_item P thresh item s = (None, s1)" "poll_rate \<noteq> 0"
      "i mod poll_rate = 0" "update_count P s1 = Inr s'" "e = None" "i' = 1"
  | (skipped) "process_item P thresh item s = (None, s')" "poll_rate \<noteq> 0"
      "i mod poll_rate \<noteq> 0" "e = None" "i' = i + 1"
proof -
  obtain e0 s1 where p: "process_item P thresh item s = (e0, s1)"
    by (cases "process_item P thresh item s")
  have "e0 = None \<or> e0 = Some OverflowError"
    using process_item_error [of P thresh item s] p by simp
  then show thesis
    using assms p that
    by (auto simp: loop_body_def update_count_def split: if_splits)
qed

section \<open>The loop\<close>

lemma loop_body_fields:
  assumes "loop_body P thresh poll_rate item (i, s) = (e, (i', s'))"
  shows "acc_set s' = acc_set (snd (process_item P thresh item s))"
    and "cur_probability s' = cur_probability (snd (process_item P thresh item s))"
    and "threshold_hit_count s' = threshold_hit_count (snd (process_item P thresh item s))"
    and "rand s' = rand (snd (process_item P thresh item s))"
    and "e \<noteq> Some OverflowError \<longrightarrow> fst (process_item P thresh item s) = None"
proof -
  show "acc_set s' = acc_set (snd (process_item P thresh item s))"
    using assms by (cases rule: loop_body_cases) (auto dest: update_count_eq(1))
  show "cur_probability s' = cur_probability (snd (process_item P thresh item s))"
    using assms by (cases rule: loop_body_cases) (auto dest: update_count_eq(1))
  show "threshold_hit_count s' = threshold_hit_count (snd (process_item P thresh item s))"
    using assms by (cases rule: loop_body_cases) (auto dest: update_count_eq(1))
  show "rand s' = rand (snd (process_item P thresh item s))"
    using assms by (cases rule: loop_body_cases) (auto dest: update_count_eq(1))
  show "e \<noteq> Some OverflowError \<longrightarrow> fst (process_item P thresh item s) = None"
    using assms by (cases rule: loop_body_cases) auto
qed

lemma loop_relation:
  fixes P :: "('a, 'c) set_impl" and R :: "'c DES \<Rightarrow> 'c DES \<Rightarrow> bool"
  assumes step: "\<And>item s e s'. process_item P thresh item s = (e, s') \<Longrightarrow> R s s'"
    and count: "\<And>s v. R s (s\<lparr>distinct_item_count := v\<rparr>)"
    and trans: "\<And>a b c. R a b \<Longrightarrow> R b c \<Longrightarrow> R a c"
    and run: "loop P thresh poll_rate (i, s) stream = (e, (i', s'))"
  shows "R s s'"
  using run
proof (induction stream arbitrary: i s)
  case Nil
  then have "s' = s" by simp
  moreover have "R s (s\<lparr>distinct_item_count := distinct_item_count s\<rparr>)"
    by (rule count)
  ultimately show ?case by simp
next
  case (Cons x stream)
  have refl: "R t t" for t :: "'c DES"
    using count [of t "distinct_item_count t"] by simp
  show ?case
  proof (cases x)
    case None
    with Cons.prems have "s' = s" by simp
    then show ?thesis using refl by simp
  next
    case (Some item)
    obtain e1 i1 s1 where b: "loop_body P thresh poll_rate item (i, s) = (e1, (i1, s1))"
      by (metis surj_pair)
    have first: "R s s1"
      using b
    proof (cases rule: loop_body_cases)
      case (polled s2)
      have "R s s2" using polled(1) by (rule step)
      moreover have "R s2 s1"
        using count [of s2] update_count_eq(1) [OF polled(4)] by simp
      ultimately show ?thesis by (rule trans)
    qed (auto intro: step)
    show ?thesis
    proof (cases e1)
      case None
      with Cons.prems Some b have "loop P thresh poll_rate (i1, s1) stream = (e, (i', s'))"
        by simp
      then have "R s1 s'" by (rule Cons.IH)
      with first show ?thesis by (rule trans)
    next
      case (Some err)
      with Cons.prems \<open>x = Some item\<close> b have "s' = s1" by simp
      with first show ?thesis by simp
    qed
  qed
qed

lemma des_distinct_cases:
  assumes "des_distinct P gen s stream stream_size reset_state poll_rate = (res, s')"
  obtains
    (invalid) e where "get_threshold (if reset_state then reset P gen s else s) stream_size = Inl e"
      "res = Inl e" "s' = (if reset_state then reset P gen s else s)"
  | (nonpositive) t where "get_threshold (if reset_state then reset P gen s else s) stream_size = Inr t"
      "t \<le> 0" "res = Inl AssertionError" "s' = (if reset_state then reset P gen s else s)"
  | (raised) t e i where "get_threshold (if reset_state then reset P gen s else s) stream_size = Inr t"
      "0 < t" "loop P t poll_rate (0, if reset_state then reset P gen s else s) stream = (Some e, (i, s'))"
      "res = Inl e"
  | (division) t i where "get_threshold (if reset_state then reset P gen s else s) stream_size = Inr t"
      "0 < t" "loop P t poll_rate (0, if reset_state then reset P gen s else s) stream = (None, (i, s'))"
      "cur_probability s' = 0" "res = Inl ZeroDivisionError"
  | (returned) t i s1 where "get_threshold (if reset_state then reset P gen s else s) stream_size = Inr t"
      "0 < t" "loop P t poll_rate (0, if reset_state then reset P gen s else s) stream = (None, (i, s1))"
      "update_count P s1 = Inr s'" "res = Inr (distinct_item_count s')"
proof -
  define s0 where "s0 = (if reset_state then reset P gen s else s)"
  have d: "des_distinct P gen s stream stream_size reset_state poll_rate =
    (case get_threshold s0 stream_size of
        Inl e \<Rightarrow> (Inl e, s0)
      | Inr thresh \<Rightarrow>
          if \<not> thresh > 0 then (Inl AssertionError, s0)
          else
            (case loop P thresh poll_rate (0, s0) stream of
               (Some e, (i, s1)) \<Rightarrow> (Inl e, s1)
             | (None, (i, s1)) \<Rightarrow>
                 (case update_count P s1 of
                    Inl e \<Rightarrow> (Inl e, s1)
                  | Inr s2 \<Rightarrow> (Inr (distinct_item_count s2), s2))))"
    unfolding des_distinct_def s0_def Let_def by (rule refl)
  show thesis
  proof (cases "get_threshold s0 stream_size")
    case (Inl e)
    with assms d show thesis
      by (intro invalid [of e]) (simp_all add: s0_def)
  next
    case (Inr t)
    show thesis
    proof (cases "0 < t")
      case False
      with assms d Inr show thesis
        by (intro nonpositive [of t]) (simp_all add: s0_def)
    next
      case True
      obtain e i s1 where l: "loop P t poll_rate (0, s0) stream = (e, (i, s1))"
        by (metis surj_pair)
      show thesis
      proof (cases e)
        case (Some err)
        with assms d Inr True l show thesis
          by (intro raised [of t err i]) (simp_all add: s0_def)
      next
        case None
        show thesis
        proof (cases "update_count P s1")
          case (Inl err)
          with assms d Inr True l None show thesis
            by (intro division [of t i]) (auto simp: s0_def update_count_def split: if_splits)
        next
          case (Inr s2)
          with assms d \<open>get_threshold s0 stream_size = Inr t\<close> True l None show thesis
            by (intro returned [of t i s1]) (auto simp: s0_def)
        qed
      qed
    qed
  qed
qed

lemma halved_count: "halved s (s\<lparr>distinct_item_count := v\<rparr>)"
  unfolding halved_def by (rule exI [of _ 0]) simp

lemma halved_trans:
  assumes "halved a b" "halved b c"
  shows "halved a c"
proof -
  obtain k where k: "threshold_hit_count b = threshold_hit_count a + int k"
      "cur_probability b = cur_probability a / 2 ^ k"
    using assms(1) unfolding halved_def by blast
  obtain m where m: "threshold_hit_count c = threshold_hit_count b + int m"
      "cur_probability c = cur_probability b / 2 ^ m"
    using assms(2) unfolding halved_def by blast
  have "threshold_hit_count c = threshold_hit_count a + int (k + m)"
    using k(1) m(1) by simp
  moreover have "cur_probability c = cur_probability a / 2 ^ (k + m)"
    using k(2) m(2) by (simp add: power_add)
  ultimately show ?thesis
    unfolding halved_def by blast
qed

lemma process_item_halved:
  assumes "process_item P thresh item s = (e, s')"
  shows "halved s s'"
proof -
  from process_item_halving [OF assms] show ?thesis
  proof
    assume "cur_probability s' = cur_probability s \<and> threshold_hit_count s' = threshold_hit_count s"
    then show ?thesis
      unfolding halved_def by (intro exI [of _ 0]) simp
  next
    assume "cur_probability s' = cur_probability s / 2
      \<and> threshold_hit_count s' = threshold_hit_count s + 1"
    then show ?thesis
      unfolding halved_def by (intro exI [of _ 1]) simp
  qed
qed

lemma loop_halved:
  assumes "loop P thresh poll_rate (i, s) stream = (e, (i', s'))"
  shows "halved s s'"
  using process_item_halved halved_count halved_trans assms
  by (rule loop_relation [where R = halved])

lemma halved_positive:
  assumes "halved s s'" "0 < cur_probability s"
  shows "0 < cur_probability s'" "cur_probability s' \<le> cur_probability s"
proof -
  obtain k where k: "cur_probability s' = cur_probability s / 2 ^ k"
    using assms(1) unfolding halved_def by blast
  show "0 < cur_probability s'"
    using k assms(2) by simp
  have "(1::real) \<le> 2 ^ k"
    by simp
  then have "cur_probability s / 2 ^ k \<le> cur_probability s / 1"
    using assms(2) by (intro divide_left_mono) simp_all
  then show "cur_probability s' \<le> cur_probability s"
    using k by simp
qed

lemma loop_size:
  assumes "loop P thresh poll_rate (i, s) stream = (e, (i', s'))"
    and "e \<noteq> Some OverflowError"
    and "int (set_len P (acc_set s)) < thresh"
  shows "int (set_len P (acc_set s')) < thresh"
  using assms
proof (induction stream arbitrary: i s)
  case Nil
  then show ?case by simp
next
  case (Cons x stream)
  show ?case
  proof (cases x)
    case None
    with Cons.prems show ?thesis by simp
  next
    case (Some item)
    obtain e1 i1 s1 where b: "loop_body P thresh poll_rate item (i, s) = (e1, (i1, s1))"
      by (metis surj_pair)
    show ?thesis
    proof (cases e1)
      case None
      then have "fst (process_item P thresh item s) = None"
        using loop_body_fields(5) [OF b] by simp
      then have "int (set_len P (acc_set (snd (process_item P thresh item s)))) < thresh"
        by (intro process_item_size) (simp add: prod_eq_iff)
      then have small: "int (set_len P (acc_set s1)) < thresh"
        using loop_body_fields(1) [OF b] by simp
      from Cons.prems(1) Some b None
      have "loop P thresh poll_rate (i1, s1) stream = (e, (i', s'))"
        by simp
      then show ?thesis
        using Cons.prems(2) small by (rule Cons.IH)
    next
      case (Some err)
      with Cons.prems(1) \<open>x = Some item\<close> b have eq: "e = e1" "s' = s1"
        by simp_all
      then have "fst (process_item P thresh item s) = None"
        using loop_body_fields(5) [OF b] Cons.prems(2) by simp
      then have "int (set_len P (acc_set (snd (process_item P thresh item s)))) < thresh"
        by (intro process_item_size) (simp add: prod_eq_iff)
      then show ?thesis
        using loop_body_fields(1) [OF b] eq by simp
    qed
  qed
qed

text \<open>
  C2. After an update of one item that does not raise \<open>OverflowError\<close> the accumulator
  has fewer than \<open>thresh\<close> elements, whatever the instance, the item and the threshold
  were. Hence the instance of a run that has processed at least one item and has not
  raised \<open>OverflowError\<close> has fewer than \<open>thresh\<close> elements, for every stream, every
  generator and every poll rate.
\<close>

theorem accumulator_below_threshold:
  "(process_item P thresh item s = (None, s1) \<longrightarrow> int (set_len P (acc_set s1)) < thresh)
   \<and> (loop P thresh poll_rate (i, s) (Some item # stream) = (e, (i', s'))
        \<longrightarrow> e \<noteq> Some OverflowError \<longrightarrow> int (set_len P (acc_set s')) < thresh)"
proof (intro conjI impI)
  assume "process_item P thresh item s = (None, s1)"
  then show "int (set_len P (acc_set s1)) < thresh"
    by (rule process_item_size)
next
  assume run: "loop P thresh poll_rate (i, s) (Some item # stream) = (e, (i', s'))"
    and e: "e \<noteq> Some OverflowError"
  obtain e1 i1 s1 where b: "loop_body P thresh poll_rate item (i, s) = (e1, (i1, s1))"
    by (metis surj_pair)
  have "e1 \<noteq> Some OverflowError"
    using run e b by (cases e1) auto
  then have "fst (process_item P thresh item s) = None"
    using loop_body_fields(5) [OF b] by simp
  then have "int (set_len P (acc_set (snd (process_item P thresh item s)))) < thresh"
    by (intro process_item_size) (simp add: prod_eq_iff)
  then have small: "int (set_len P (acc_set s1)) < thresh"
    using loop_body_fields(1) [OF b] by simp
  show "int (set_len P (acc_set s')) < thresh"
  proof (cases e1)
    case None
    with run b have "loop P thresh poll_rate (i1, s1) stream = (e, (i', s'))"
      by simp
    then show ?thesis
      using e small by (rule loop_size)
  next
    case (Some err)
    with run b have "s' = s1" by simp
    with small show ?thesis by simp
  qed
qed

theorem accumulator_below_threshold_witness:
  "process_item ascending_set 2 1 (example_des 2) = (None, snd (process_item ascending_set 2 1 (example_des 2)))
   \<and> int (set_len ascending_set (acc_set (snd (process_item ascending_set 2 1 (example_des 2))))) < 2
   \<and> fst (loop ascending_set 2 10 (0, example_des 2) [Some 1, Some 2]) \<noteq> Some OverflowError
   \<and> int (set_len ascending_set (acc_set (snd (snd (loop ascending_set 2 10 (0, example_des 2) [Some 1, Some 2]))))) < 2"
  using accumulator_below_threshold [of ascending_set 2 1 "example_des 2" "snd (process_item ascending_set 2 1 (example_des 2))"
      10 0 "[Some 2]" "fst (loop ascending_set 2 10 (0, example_des 2) [Some 1, Some 2])"
      "fst (snd (loop ascending_set 2 10 (0, example_des 2) [Some 1, Some 2]))"
      "snd (snd (loop ascending_set 2 10 (0, example_des 2) [Some 1, Some 2]))"]
  by (simp add: run_simps)

section \<open>The estimate\<close>

lemma loop_append:
  "loop P thresh poll_rate c (map Some pre @ stream) =
     (case loop P thresh poll_rate c (map Some pre) of
        (Some e, c') \<Rightarrow> (Some e, c')
      | (None, c') \<Rightarrow> loop P thresh poll_rate c' stream)"
  by (induction pre arbitrary: c) (auto split: prod.splits option.splits)

lemma update_count_estimate:
  assumes "update_count P t = Inr t'"
  shows "distinct_item_count t' = \<lfloor>real (set_len P (acc_set t')) / cur_probability t'\<rfloor>"
  using update_count_eq(1) [OF assms] by simp

lemma loop_error:
  assumes "loop P thresh poll_rate (i, s) stream = (Some e, (i', s'))"
  shows "e = OverflowError \<or> (e = ZeroDivisionError \<and> (poll_rate = 0 \<or> cur_probability s' = 0))"
  using assms
proof (induction stream arbitrary: i s)
  case Nil
  then show ?case by simp
next
  case (Cons x stream)
  show ?case
  proof (cases x)
    case None
    with Cons.prems show ?thesis by simp
  next
    case (Some item)
    obtain e1 i1 s1 where b: "loop_body P thresh poll_rate item (i, s) = (e1, (i1, s1))"
      by (metis surj_pair)
    show ?thesis
    proof (cases e1)
      case None
      with Cons.prems Some b have "loop P thresh poll_rate (i1, s1) stream = (Some e, (i', s'))"
        by simp
      then show ?thesis by (rule Cons.IH)
    next
      case (Some err)
      with Cons.prems \<open>x = Some item\<close> b have eq: "e1 = Some e" "s' = s1"
        by simp_all
      from b eq show ?thesis
        by (cases rule: loop_body_cases) auto
    qed
  qed
qed

text \<open>
  C4. Every assignment to \<open>distinct_item_count\<close> stores the floor of the size of the
  accumulator divided by \<open>cur_probability\<close> and changes nothing else of the two: the
  assignment itself, the one a loop body makes when the poll counter is a multiple of the
  poll rate, and the one after the loop. A call that returns a value returns that last
  assignment, and it is not negative, for an instance whose probability is positive (a
  constructed or reset instance has probability 1, and the loop only halves it). For a
  positive threshold and a poll rate other than zero the call returns that value or
  raises \<open>OverflowError\<close>, whatever the poll counter was when the stream ended.
\<close>

theorem estimate_recomputed:
  assumes "0 < cur_probability s \<or> reset_state"
  shows "(update_count P t = Inr t' \<longrightarrow>
            distinct_item_count t' = \<lfloor>real (set_len P (acc_set t)) / cur_probability t\<rfloor>
            \<and> acc_set t' = acc_set t \<and> cur_probability t' = cur_probability t)
       \<and> (loop_body P thresh poll_rate item (i, u) = (None, (i', u')) \<longrightarrow> i mod poll_rate = 0 \<longrightarrow>
            distinct_item_count u' = \<lfloor>real (set_len P (acc_set u')) / cur_probability u'\<rfloor>)
       \<and> (des_distinct P gen s stream stream_size reset_state poll_rate = (Inr v, s') \<longrightarrow>
            v = \<lfloor>real (set_len P (acc_set s')) / cur_probability s'\<rfloor>
            \<and> distinct_item_count s' = v \<and> 0 \<le> v)
       \<and> (des_distinct P gen s stream stream_size reset_state poll_rate = (res, s') \<longrightarrow>
            poll_rate \<noteq> 0 \<longrightarrow>
            (\<exists>thresh. get_threshold s stream_size = Inr thresh \<and> 0 < thresh) \<longrightarrow>
            res = Inl OverflowError \<or> res = Inr (distinct_item_count s'))"
proof -
  define s0 where "s0 = (if reset_state then reset P gen s else s)"
  have p0: "0 < cur_probability s0"
    using assms by (auto simp: s0_def reset_def)
  have same: "get_threshold s0 stream_size = get_threshold s stream_size"
    by (cases "threshold s") (simp_all add: s0_def get_threshold_def reset_def)
  have A: "update_count P t = Inr t' \<longrightarrow>
            distinct_item_count t' = \<lfloor>real (set_len P (acc_set t)) / cur_probability t\<rfloor>
            \<and> acc_set t' = acc_set t \<and> cur_probability t' = cur_probability t"
    using update_count_eq(1) [of P t t'] by auto
  have B: "loop_body P thresh poll_rate item (i, u) = (None, (i', u')) \<longrightarrow> i mod poll_rate = 0 \<longrightarrow>
            distinct_item_count u' = \<lfloor>real (set_len P (acc_set u')) / cur_probability u'\<rfloor>"
  proof (intro impI)
    assume b: "loop_body P thresh poll_rate item (i, u) = (None, (i', u'))"
      and m: "i mod poll_rate = 0"
    from b show "distinct_item_count u' = \<lfloor>real (set_len P (acc_set u')) / cur_probability u'\<rfloor>"
    proof (cases rule: loop_body_cases)
      case (polled s1)
      then show ?thesis by (intro update_count_estimate)
    next
      case skipped
      with m show ?thesis by simp
    qed simp_all
  qed
  have C: "des_distinct P gen s stream stream_size reset_state poll_rate = (Inr v, s') \<longrightarrow>
            v = \<lfloor>real (set_len P (acc_set s')) / cur_probability s'\<rfloor>
            \<and> distinct_item_count s' = v \<and> 0 \<le> v"
  proof
    assume "des_distinct P gen s stream stream_size reset_state poll_rate = (Inr v, s')"
    then show "v = \<lfloor>real (set_len P (acc_set s')) / cur_probability s'\<rfloor>
        \<and> distinct_item_count s' = v \<and> 0 \<le> v"
    proof (cases rule: des_distinct_cases)
      case (returned thresh j s1)
      have est: "distinct_item_count s' = \<lfloor>real (set_len P (acc_set s')) / cur_probability s'\<rfloor>"
        using returned(4) by (rule update_count_estimate)
      have "halved s0 s1"
        using returned(3) unfolding s0_def by (rule loop_halved)
      then have "0 < cur_probability s1"
        using p0 by (rule halved_positive(1))
      then have "0 < cur_probability s'"
        using update_count_eq(1) [OF returned(4)] by simp
      then have "0 \<le> real (set_len P (acc_set s')) / cur_probability s'"
        by simp
      then have "0 \<le> \<lfloor>real (set_len P (acc_set s')) / cur_probability s'\<rfloor>"
        by simp
      with est returned(5) show ?thesis by simp
    qed simp_all
  qed
  have D: "des_distinct P gen s stream stream_size reset_state poll_rate = (res, s') \<longrightarrow>
            poll_rate \<noteq> 0 \<longrightarrow>
            (\<exists>thresh. get_threshold s stream_size = Inr thresh \<and> 0 < thresh) \<longrightarrow>
            res = Inl OverflowError \<or> res = Inr (distinct_item_count s')"
  proof (intro impI)
    assume run: "des_distinct P gen s stream stream_size reset_state poll_rate = (res, s')"
      and poll: "poll_rate \<noteq> 0"
      and "\<exists>thresh. get_threshold s stream_size = Inr thresh \<and> 0 < thresh"
    then obtain thresh where th: "get_threshold s0 stream_size = Inr thresh" "0 < thresh"
      using same by auto
    from run show "res = Inl OverflowError \<or> res = Inr (distinct_item_count s')"
    proof (cases rule: des_distinct_cases)
      case (invalid e)
      with th show ?thesis by (simp add: s0_def)
    next
      case (nonpositive t)
      with th show ?thesis by (simp add: s0_def)
    next
      case (raised t e j)
      have "halved s0 s'"
        using raised(3) unfolding s0_def by (rule loop_halved)
      then have "0 < cur_probability s'"
        using p0 by (rule halved_positive(1))
      then have "e = OverflowError"
        using loop_error [OF raised(3)] poll by auto
      with raised show ?thesis by simp
    next
      case (division t j)
      have "halved s0 s'"
        using division(3) unfolding s0_def by (rule loop_halved)
      then have "0 < cur_probability s'"
        using p0 by (rule halved_positive(1))
      with division(4) show ?thesis by simp
    next
      case (returned t j s1)
      then show ?thesis by simp
    qed
  qed
  show ?thesis
    by (intro conjI A B C D)
qed

theorem estimate_recomputed_witness:
  "(0 < cur_probability (example_des 2) \<or> False)
   \<and> update_count ascending_set (example_des 2) = Inr ((example_des 2)\<lparr>distinct_item_count := 0\<rparr>)
   \<and> fst (loop_body ascending_set 2 10 (1::nat) (0, example_des 2)) = None
   \<and> distinct_item_count (snd (snd (loop_body ascending_set 2 10 (1::nat) (0, example_des 2)))) = 1
   \<and> fst (des_distinct ascending_set example_gen (example_des 2) [Some 1, Some 2] 2 False 10) = Inr 2
   \<and> \<lfloor>real (set_len ascending_set (acc_set (snd (des_distinct ascending_set example_gen (example_des 2) [Some 1, Some 2] 2 False 10))))
        / cur_probability (snd (des_distinct ascending_set example_gen (example_des 2) [Some 1, Some 2] 2 False 10))\<rfloor> = 2
   \<and> distinct_item_count (snd (des_distinct ascending_set example_gen (example_des 2) [Some 1, Some 2] 2 False 10)) = 2"
  using estimate_recomputed [where P = ascending_set and s = "example_des 2" and reset_state = False
      and t = "example_des 2" and t' = "(example_des 2)\<lparr>distinct_item_count := 0\<rparr>"
      and thresh = 2 and poll_rate = 10 and item = "1::nat" and i = 0 and i' = 1
      and u = "example_des 2" and u' = "snd (snd (loop_body ascending_set 2 10 (1::nat) (0, example_des 2)))"
      and gen = example_gen and stream = "[Some 1, Some 2]" and stream_size = 2 and v = 2
      and s' = "snd (des_distinct ascending_set example_gen (example_des 2) [Some 1, Some 2] 2 False 10)"
      and res = "fst (des_distinct ascending_set example_gen (example_des 2) [Some 1, Some 2] 2 False 10)"]
  by (simp add: run_simps)

section \<open>Overflow\<close>

lemma reset_fields:
  "threshold (reset P gen s) = threshold s"
  "relative_error_tolerance (reset P gen s) = relative_error_tolerance s"
  "failure_probability (reset P gen s) = failure_probability s"
  "seed (reset P gen s) = seed s"
  "cur_probability (reset P gen s) = 1"
  "threshold_hit_count (reset P gen s) = 0"
  "acc_set (reset P gen s) = set_empty P"
  "distinct_item_count (reset P gen s) = 0"
  "rand (reset P gen s) = gen (seed s)"
  by (simp_all add: reset_def)

lemma get_threshold_reset: "get_threshold (reset P gen s) stream_size = get_threshold s stream_size"
  by (cases "threshold s") (simp_all add: get_threshold_def reset_def)

text \<open>
  C5. The update of one item raises \<open>OverflowError\<close> exactly when the accumulator reached
  the threshold after the insertion, so that a down-sampling pass ran, and still has at
  least \<open>thresh\<close> elements after that pass. There is one pass only: the instance left
  behind holds the outcome of a single \<open>down_sample\<close>, with the counter one higher and the
  probability halved once. A call whose loop reaches such an item, after any prefix that
  was processed without error, returns \<open>Inl OverflowError\<close> and no estimate, and leaves
  the instance as that one pass left it; the rest of the stream is not read.
\<close>

theorem overflow_iff:
  "(fst (process_item P thresh item s) = Some OverflowError \<longleftrightarrow>
      thresh \<le> int (set_len P (inserted P item s))
      \<and> thresh \<le> int (set_len P (fst (down_sample P (inserted P item s) (\<lambda>k. rand s (Suc k))))))
   \<and> (thresh \<le> int (set_len P (inserted P item s)) \<longrightarrow>
        acc_set (snd (process_item P thresh item s))
          = fst (down_sample P (inserted P item s) (\<lambda>k. rand s (Suc k)))
        \<and> threshold_hit_count (snd (process_item P thresh item s)) = threshold_hit_count s + 1
        \<and> cur_probability (snd (process_item P thresh item s)) = cur_probability s / 2)
   \<and> (get_threshold s stream_size = Inr thresh \<longrightarrow> 0 < thresh \<longrightarrow>
        loop P thresh poll_rate (0, if reset_state then reset P gen s else s) (map Some pre)
          = (None, (j, s1)) \<longrightarrow>
        fst (process_item P thresh item s1) = Some OverflowError \<longrightarrow>
        des_distinct P gen s (map Some pre @ Some item # rest) stream_size reset_state poll_rate
          = (Inl OverflowError, snd (process_item P thresh item s1)))"
proof -
  have A: "fst (process_item P thresh item s) = Some OverflowError \<longleftrightarrow>
      thresh \<le> int (set_len P (inserted P item s))
      \<and> thresh \<le> int (set_len P (fst (down_sample P (inserted P item s) (\<lambda>k. rand s (Suc k)))))"
    by (simp add: process_item_unfold)
  have B: "thresh \<le> int (set_len P (inserted P item s)) \<longrightarrow>
        acc_set (snd (process_item P thresh item s))
          = fst (down_sample P (inserted P item s) (\<lambda>k. rand s (Suc k)))
        \<and> threshold_hit_count (snd (process_item P thresh item s)) = threshold_hit_count s + 1
        \<and> cur_probability (snd (process_item P thresh item s)) = cur_probability s / 2"
    by (simp add: process_item_unfold)
  have C: "get_threshold s stream_size = Inr thresh \<longrightarrow> 0 < thresh \<longrightarrow>
        loop P thresh poll_rate (0, if reset_state then reset P gen s else s) (map Some pre)
          = (None, (j, s1)) \<longrightarrow>
        fst (process_item P thresh item s1) = Some OverflowError \<longrightarrow>
        des_distinct P gen s (map Some pre @ Some item # rest) stream_size reset_state poll_rate
          = (Inl OverflowError, snd (process_item P thresh item s1))"
  proof (intro impI)
    define s0 where "s0 = (if reset_state then reset P gen s else s)"
    assume "get_threshold s stream_size = Inr thresh" and pos: "0 < thresh"
    then have th: "get_threshold s0 stream_size = Inr thresh"
      by (simp add: s0_def get_threshold_reset)
    assume "loop P thresh poll_rate (0, if reset_state then reset P gen s else s) (map Some pre)
          = (None, (j, s1))"
    then have pre: "loop P thresh poll_rate (0, s0) (map Some pre) = (None, (j, s1))"
      by (simp add: s0_def)
    assume ov: "fst (process_item P thresh item s1) = Some OverflowError"
    obtain sx where px: "process_item P thresh item s1 = (Some OverflowError, sx)"
      using ov by (cases "process_item P thresh item s1") simp
    then have sx: "sx = snd (process_item P thresh item s1)"
      by simp
    have "loop_body P thresh poll_rate item (j, s1) = (Some OverflowError, (j, sx))"
      by (simp add: loop_body_def px)
    then have "loop_body P thresh poll_rate item (j, s1)
        = (Some OverflowError, (j, snd (process_item P thresh item s1)))"
      using sx by simp
    then have "loop P thresh poll_rate (0, s0) (map Some pre @ Some item # rest)
        = (Some OverflowError, (j, snd (process_item P thresh item s1)))"
      using pre by (simp add: loop_append)
    then show "des_distinct P gen s (map Some pre @ Some item # rest) stream_size reset_state poll_rate
        = (Inl OverflowError, snd (process_item P thresh item s1))"
      using th pos unfolding des_distinct_def s0_def [symmetric] Let_def by simp
  qed
  show ?thesis
    by (intro conjI A B C)
qed

theorem overflow_iff_witness:
  "fst (process_item ascending_set 1 (1::nat) (example_des 1)) = Some OverflowError
   \<and> (1::int) \<le> int (set_len ascending_set (inserted ascending_set (1::nat) (example_des 1)))
   \<and> acc_set (snd (process_item ascending_set 1 (1::nat) (example_des 1))) = [1]
   \<and> threshold_hit_count (snd (process_item ascending_set 1 (1::nat) (example_des 1))) = 1
   \<and> get_threshold (example_des 1) 2 = Inr 1
   \<and> loop ascending_set 1 10 (0, example_des 1) (map Some []) = (None, (0, example_des 1))
   \<and> des_distinct ascending_set example_gen (example_des 1) (map Some [] @ Some 1 # [Some 2]) 2 False 10
        = (Inl OverflowError, snd (process_item ascending_set 1 (1::nat) (example_des 1)))"
  using overflow_iff [where P = ascending_set and thresh = 1 and item = "1::nat" and s = "example_des 1"
      and stream_size = 2 and poll_rate = 10 and pre = "[]" and j = 0 and ?s1.0 = "example_des 1"
      and gen = example_gen and rest = "[Some 2]" and reset_state = False]
  by (simp add: run_simps)

section \<open>The retention probability\<close>

text \<open>
  C7 does not hold as stated. After one call the probability of an instance is \<open>1 / 2\<close> and
  its counter is 1. A second call with \<open>reset_state\<close> ends with the probability 1 and the
  counter 0: across that call the probability has increased, by a step that is not a
  halving, and the counter has decreased.
\<close>

theorem reset_raises_probability_counterexample:
  "cur_probability used_des = 1 / 2
   \<and> threshold_hit_count used_des = 1
   \<and> cur_probability (snd (des_distinct ascending_set example_gen used_des [Some 3] 1 True 10)) = 1
   \<and> threshold_hit_count (snd (des_distinct ascending_set example_gen used_des [Some 3] 1 True 10)) = 0"
  by (simp add: used_des_def run_simps)

text \<open>
  C7, as amended. A constructed and a reset instance have \<open>cur_probability = 1\<close>, and
  a reset instance has the counter 0. From
  an instance with \<open>0 < cur_probability \<le> 1\<close>: the update of one item leaves the
  probability and the counter as they are or halves the one and adds one to the other; an
  assignment to the estimate changes neither; and at the end of a call, failed or not,
  the counter has grown by some \<open>k\<close> and the probability is the starting one divided by
  \<open>2 ^ k\<close>, still positive and at most 1. The starting instance of the comparison is
  the instance the loop starts from: the reset instance when \<open>reset_state\<close> is true.
\<close>

theorem retention_probability_halving:
  fixes P :: "('a, 'c) set_impl"
  assumes "0 < cur_probability s" "cur_probability s \<le> 1"
  shows "cur_probability (reset P gen s) = 1
       \<and> threshold_hit_count (reset P gen s) = 0
       \<and> cur_probability (des_init P gen thr tolerance failure seed_arg ambient :: 'c DES) = 1
       \<and> (process_item P thresh item s = (e, s1) \<longrightarrow>
            (cur_probability s1 = cur_probability s
               \<and> threshold_hit_count s1 = threshold_hit_count s)
            \<or> (cur_probability s1 = cur_probability s / 2
               \<and> threshold_hit_count s1 = threshold_hit_count s + 1))
       \<and> (update_count P s = Inr s2 \<longrightarrow>
            cur_probability s2 = cur_probability s
            \<and> threshold_hit_count s2 = threshold_hit_count s)
       \<and> (des_distinct P gen s stream stream_size reset_state poll_rate = (res, s') \<longrightarrow>
            (\<exists>k. threshold_hit_count s'
                   = threshold_hit_count (if reset_state then reset P gen s else s) + int k
                \<and> cur_probability s'
                   = cur_probability (if reset_state then reset P gen s else s) / 2 ^ k)
            \<and> 0 < cur_probability s'
            \<and> cur_probability s' \<le> cur_probability (if reset_state then reset P gen s else s)
            \<and> cur_probability s' \<le> 1)"
proof -
  define s0 where "s0 = (if reset_state then reset P gen s else s)"
  have p0: "0 < cur_probability s0" "cur_probability s0 \<le> 1"
    using assms by (auto simp: s0_def reset_def)
  have A: "cur_probability (reset P gen s) = 1"
    by (simp add: reset_def)
  have A0: "threshold_hit_count (reset P gen s) = 0"
    by (simp add: reset_def)
  have A': "cur_probability (des_init P gen thr tolerance failure seed_arg ambient :: 'c DES) = 1"
    by (simp add: des_init_def reset_def)
  have B: "process_item P thresh item s = (e, s1) \<longrightarrow>
            (cur_probability s1 = cur_probability s
               \<and> threshold_hit_count s1 = threshold_hit_count s)
            \<or> (cur_probability s1 = cur_probability s / 2
               \<and> threshold_hit_count s1 = threshold_hit_count s + 1)"
    using process_item_halving [of P thresh item s e s1] by blast
  have C: "update_count P s = Inr s2 \<longrightarrow>
            cur_probability s2 = cur_probability s
            \<and> threshold_hit_count s2 = threshold_hit_count s"
    using update_count_eq(1) [of P s s2] by auto
  have D: "des_distinct P gen s stream stream_size reset_state poll_rate = (res, s') \<longrightarrow>
            (\<exists>k. threshold_hit_count s' = threshold_hit_count s0 + int k
                \<and> cur_probability s' = cur_probability s0 / 2 ^ k)
            \<and> 0 < cur_probability s'
            \<and> cur_probability s' \<le> cur_probability s0
            \<and> cur_probability s' \<le> 1"
  proof
    assume "des_distinct P gen s stream stream_size reset_state poll_rate = (res, s')"
    then have h: "halved s0 s'"
    proof (cases rule: des_distinct_cases)
      case (invalid e)
      then show ?thesis
        using halved_count [of s0 "distinct_item_count s0"] by (simp add: s0_def)
    next
      case (nonpositive t)
      then show ?thesis
        using halved_count [of s0 "distinct_item_count s0"] by (simp add: s0_def)
    next
      case (raised t e i)
      then show ?thesis
        unfolding s0_def by (intro loop_halved)
    next
      case (division t i)
      then show ?thesis
        unfolding s0_def by (intro loop_halved)
    next
      case (returned t i s1)
      have "halved s0 s1"
        using returned(3) unfolding s0_def by (rule loop_halved)
      moreover have "halved s1 s'"
        using halved_count [of s1] update_count_eq(1) [OF returned(4)] by simp
      ultimately show ?thesis by (rule halved_trans)
    qed
    have "0 < cur_probability s'" "cur_probability s' \<le> cur_probability s0"
      using halved_positive [OF h p0(1)] by simp_all
    then show "(\<exists>k. threshold_hit_count s' = threshold_hit_count s0 + int k
                \<and> cur_probability s' = cur_probability s0 / 2 ^ k)
            \<and> 0 < cur_probability s'
            \<and> cur_probability s' \<le> cur_probability s0
            \<and> cur_probability s' \<le> 1"
      using h p0(2) unfolding halved_def by simp
  qed
  show ?thesis
    using A A0 A' B C D unfolding s0_def by (intro conjI)
qed

theorem retention_probability_halving_witness:
  "0 < cur_probability (example_des 2) \<and> cur_probability (example_des 2) \<le> 1
   \<and> cur_probability (snd (process_item ascending_set 2 (1::nat) (example_des 2))) = cur_probability (example_des 2)
   \<and> threshold_hit_count (snd (des_distinct ascending_set example_gen (example_des 2) [Some 1, Some 2] 2 False 10)) = 1
   \<and> cur_probability (snd (des_distinct ascending_set example_gen (example_des 2) [Some 1, Some 2] 2 False 10)) = 1 / 2"
  using retention_probability_halving [where P = ascending_set and s = "example_des 2" and gen = example_gen
      and thresh = 2 and item = "1::nat" and e = "fst (process_item ascending_set 2 (1::nat) (example_des 2))"
      and ?s1.0 = "snd (process_item ascending_set 2 (1::nat) (example_des 2))"
      and ?s2.0 = "(example_des 2)\<lparr>distinct_item_count := 0\<rparr>"
      and stream = "[Some 1, Some 2]" and stream_size = 2 and reset_state = False
      and poll_rate = 10
      and res = "fst (des_distinct ascending_set example_gen (example_des 2) [Some 1, Some 2] 2 False 10)"
      and s' = "snd (des_distinct ascending_set example_gen (example_des 2) [Some 1, Some 2] 2 False 10)"]
  by (simp add: run_simps)

section \<open>Replay\<close>











section \<open>The end of the stream\<close>

lemma loop_none:
  "loop P thresh poll_rate c (pre @ None # rest) = loop P thresh poll_rate c pre"
proof (induction pre arbitrary: c)
  case Nil
  show ?case by simp
next
  case (Cons x pre)
  show ?case
  proof (cases x)
    case None
    then show ?thesis by simp
  next
    case (Some item)
    then show ?thesis
      by (simp add: Cons.IH split: prod.splits option.splits)
  qed
qed

text \<open>
  C9. The loop ends at the first \<open>None\<close> the stream yields, and what follows it is never
  read: a call on a stream with a \<open>None\<close> in it is the call on the part before it. On
  \<open>[1, None, 2]\<close> the call returns 1 with the accumulator \<open>[1]\<close>; on \<open>[1, 2]\<close> it returns 2.
\<close>

theorem none_item_ends_stream:
  "des_distinct P gen s (pre @ None # rest) stream_size reset_state poll_rate
     = des_distinct P gen s pre stream_size reset_state poll_rate
   \<and> fst (des_distinct ascending_set example_gen (example_des 5) [Some 1, None, Some 2] 3 False 10) = Inr 1
   \<and> acc_set (snd (des_distinct ascending_set example_gen (example_des 5) [Some 1, None, Some 2] 3 False 10)) = [1]
   \<and> fst (des_distinct ascending_set example_gen (example_des 5) [Some 1, Some 2] 3 False 10) = Inr 2
   \<and> acc_set (snd (des_distinct ascending_set example_gen (example_des 5) [Some 1, Some 2] 3 False 10)) = [1, 2]"
proof -
  have "des_distinct P gen s (pre @ None # rest) stream_size reset_state poll_rate
     = des_distinct P gen s pre stream_size reset_state poll_rate"
    unfolding des_distinct_def loop_none by (rule refl)
  then show ?thesis
    by (simp add: run_simps)
qed

section \<open>The threshold\<close>

lemma float_leq_Finite:
  "float_leq (Finite c) v \<longleftrightarrow> v = PosInf \<or> (\<exists>b. v = Finite b \<and> c \<le> b)"
  by (cases v) simp_all


lemma sane_rnd_mono:
  assumes "sane_fpu F" "x \<le> y"
  shows "float_leq (rnd F x) (rnd F y)"
  using assms unfolding sane_fpu_def by blast

lemma sane_rnd_int:
  assumes "sane_fpu F" "\<bar>k\<bar> \<le> 2 ^ 53"
  shows "rnd F (real_of_int k) = Finite (real_of_int k)"
  using assms unfolding sane_fpu_def by blast

lemma sane_rnd_ge:
  assumes "sane_fpu F" "\<bar>k\<bar> \<le> 2 ^ 53" "real_of_int k \<le> x"
  shows "float_leq (Finite (real_of_int k)) (rnd F x)"
  using sane_rnd_mono [OF assms(1,3)] sane_rnd_int [OF assms(1,2)] by simp


lemma sane_pow:
  assumes "sane_fpu F" "0 < e" "e < 1"
  obtains p where "libm_pow F e 2 = Finite p" "0 \<le> p" "p \<le> 1"
  using assms unfolding sane_fpu_def by blast

lemma sane_log:
  assumes "sane_fpu F" "8 \<le> y"
  obtains l where "libm_log F y = Finite l" "1 \<le> l"
  using assms unfolding sane_fpu_def by blast

lemma mul_ge:
  assumes F: "sane_fpu F" and a: "float_leq (Finite c1) a" and b: "float_leq (Finite c2) b"
    and c: "0 < c1" "0 < c2" and k: "\<bar>k\<bar> \<le> 2 ^ 53" "real_of_int k \<le> c1 * c2"
  shows "float_leq (Finite (real_of_int k)) (float_mul F a b)"
proof -
  consider (ff) x y where "a = Finite x" "c1 \<le> x" "b = Finite y" "c2 \<le> y"
    | (fi) x where "a = Finite x" "c1 \<le> x" "b = PosInf"
    | (inf_fin) y where "a = PosInf" "b = Finite y" "c2 \<le> y"
    | (ii) "a = PosInf" "b = PosInf"
    using a b by (auto simp: float_leq_Finite)
  then show ?thesis
  proof cases
    case ff
    have "c1 * c2 \<le> x * y"
      using ff(2,4) c by (intro mult_mono) simp_all
    then have "real_of_int k \<le> x * y"
      using k(2) by linarith
    then show ?thesis
      using ff(1,3) by (simp add: sane_rnd_ge [OF F k(1)])
  next
    case fi
    then show ?thesis using c by simp
  next
    case inf_fin
    then show ?thesis using c by simp
  next
    case ii
    then show ?thesis by simp
  qed
qed

lemma div_ge:
  assumes F: "sane_fpu F" and a: "float_leq (Finite c) a" and c: "0 < c" and d: "0 < d"
    and k: "\<bar>k\<bar> \<le> 2 ^ 53" "real_of_int k \<le> c / d"
  shows "float_leq (Finite (real_of_int k)) (ieee_div F a (Finite d))"
proof -
  consider (f) x where "a = Finite x" "c \<le> x" | (i) "a = PosInf"
    using a by (auto simp: float_leq_Finite)
  then show ?thesis
  proof cases
    case f
    have "c / d \<le> x / d"
      using f(2) d by (simp add: divide_right_mono)
    then have "real_of_int k \<le> x / d"
      using k(2) by linarith
    then show ?thesis
      using f(1) by (simp add: sane_rnd_ge [OF F k(1)])
  next
    case i
    then show ?thesis using d by simp
  qed
qed

lemma log_ge:
  assumes F: "sane_fpu F" and q: "float_leq (Finite 8) q"
  shows "math_log F q = Inr (log_value F q)" and "float_leq (Finite 1) (log_value F q)"
proof -
  consider (f) x where "q = Finite x" "8 \<le> x" | (i) "q = PosInf"
    using q by (auto simp: float_leq_Finite)
  then have "math_log F q = Inr (log_value F q) \<and> float_leq (Finite 1) (log_value F q)"
  proof cases
    case f
    obtain l where "libm_log F x = Finite l" "1 \<le> l"
      using F f(2) by (rule sane_log)
    then show ?thesis
      using f by (simp add: log_value_def)
  next
    case i
    then show ?thesis by (simp add: log_value_def)
  qed
  then show "math_log F q = Inr (log_value F q)" and "float_leq (Finite 1) (log_value F q)"
    by simp_all
qed

text \<open>The argument of the logarithm and the logarithm, for a valid stream size in range.\<close>

lemma log_argument:
  assumes F: "sane_fpu F" and n: "0 < stream_size" and d: "0 < d" "d < 1"
  shows "float_leq (Finite 8)
           (ieee_div F (float_mul F (Finite 8) (rnd F (real_of_int stream_size))) (Finite d))"
proof -
  have "real_of_int 1 \<le> real_of_int stream_size"
    using n by simp
  then have nf: "float_leq (Finite 1) (rnd F (real_of_int stream_size))"
    using sane_rnd_ge [OF F, of 1 "real_of_int stream_size"] by simp
  have "float_leq (Finite (real_of_int 8)) (float_mul F (Finite 8) (rnd F (real_of_int stream_size)))"
    using F _ nf by (rule mul_ge [where ?c1.0 = 8 and ?c2.0 = 1]) simp_all
  then have m: "float_leq (Finite 8) (float_mul F (Finite 8) (rnd F (real_of_int stream_size)))"
    by simp
  have "8 \<le> 8 / d"
    using d by (simp add: le_divide_eq)
  then have "float_leq (Finite (real_of_int 8))
      (ieee_div F (float_mul F (Finite 8) (rnd F (real_of_int stream_size))) (Finite d))"
    using F m _ d(1) by (intro div_ge [where c = 8]) simp_all
  then show ?thesis by simp
qed

lemma formula_unfold:
  assumes F: "sane_fpu F" and n: "0 < stream_size" and e: "0 < e" "e < 1" and d: "0 < d" "d < 1"
  shows "libm_pow F e 2 = Finite 0 \<Longrightarrow>
           threshold_formula F stream_size (Finite e) (Finite d) = Inl ZeroDivisionError"
    and "libm_pow F e 2 \<noteq> Finite 0 \<Longrightarrow> 2 ^ 1024 - 2 ^ 970 \<le> stream_size \<Longrightarrow>
           threshold_formula F stream_size (Finite e) (Finite d) = Inl OverflowError"
    and "libm_pow F e 2 \<noteq> Finite 0 \<Longrightarrow> stream_size < 2 ^ 1024 - 2 ^ 970 \<Longrightarrow>
           threshold_formula F stream_size (Finite e) (Finite d)
             = math_ceil (formula_float F stream_size e d)"
    and "libm_pow F e 2 \<noteq> Finite 0 \<Longrightarrow>
           float_leq (Finite 12) (formula_float F stream_size e d)"
proof -
  obtain p where p: "libm_pow F e 2 = Finite p" "0 \<le> p" "p \<le> 1"
    using F e by (rule sane_pow)
  have pw: "math_pow2 F (Finite e) = Inr (Finite p)"
    using p(1) by simp
  show "threshold_formula F stream_size (Finite e) (Finite d) = Inl ZeroDivisionError"
    if "libm_pow F e 2 = Finite 0"
    using that p(1) by (simp add: threshold_formula_def float_div_def)
  have absn: "\<bar>stream_size\<bar> = stream_size"
    using n by simp
  show "threshold_formula F stream_size (Finite e) (Finite d) = Inl OverflowError"
    if "libm_pow F e 2 \<noteq> Finite 0" "2 ^ 1024 - 2 ^ 970 \<le> stream_size"
    using that p(1) absn by (simp add: threshold_formula_def float_div_def float_of_int_def)
  define q where
    "q = ieee_div F (float_mul F (Finite 8) (rnd F (real_of_int stream_size))) (Finite d)"
  have q8: "float_leq (Finite 8) q"
    unfolding q_def using F n d by (rule log_argument)
  have lg: "math_log F q = Inr (log_value F q)" and l1: "float_leq (Finite 1) (log_value F q)"
    using log_ge [OF F q8] by simp_all
  show "threshold_formula F stream_size (Finite e) (Finite d)
      = math_ceil (formula_float F stream_size e d)"
    if "libm_pow F e 2 \<noteq> Finite 0" "stream_size < 2 ^ 1024 - 2 ^ 970"
  proof -
    have "float_of_int F stream_size = Inr (rnd F (real_of_int stream_size))"
      using that(2) absn by (simp add: float_of_int_def)
    moreover have "float_div F (float_mul F (Finite 8) (rnd F (real_of_int stream_size))) (Finite d)
        = Inr q"
      using d(1) by (simp add: float_div_def q_def)
    moreover have "float_div F (Finite 12) (Finite p) = Inr (ieee_div F (Finite 12) (Finite p))"
      using that(1) p(1) by (simp add: float_div_def)
    ultimately show ?thesis
      using pw lg p(1) by (simp add: threshold_formula_def formula_float_def q_def [symmetric])
  qed
  show "float_leq (Finite 12) (formula_float F stream_size e d)"
    if "libm_pow F e 2 \<noteq> Finite 0"
  proof -
    have p0: "0 < p"
      using that p(1,2) by (cases "p = 0") simp_all
    have "12 \<le> 12 / p"
      using p0 p(3) by (simp add: le_divide_eq)
    then have "float_leq (Finite (real_of_int 12)) (rnd F (12 / p))"
      using F by (intro sane_rnd_ge) simp_all
    then have a: "float_leq (Finite 12) (ieee_div F (Finite 12) (libm_pow F e 2))"
      using p(1) by simp
    have "float_leq (Finite (real_of_int 12))
        (float_mul F (ieee_div F (Finite 12) (libm_pow F e 2)) (log_value F q))"
      using F a l1 by (rule mul_ge) simp_all
    then show ?thesis
      by (simp add: formula_float_def q_def)
  qed
qed

lemma calculate_threshold_valid:
  assumes "0 < stream_size" "0 < e" "e < 1" "0 < d" "d < 1"
  shows "calculate_threshold F stream_size (Finite e) (Finite d)
           = threshold_formula F stream_size (Finite e) (Finite d)"
  using assms by (simp add: calculate_threshold_def)

lemma ceil_ge:
  assumes "float_leq (Finite 12) x"
  shows "math_ceil x = Inl OverflowError \<or> (\<exists>t. math_ceil x = Inr t \<and> 12 \<le> t)"
proof -
  consider (f) b where "x = Finite b" "12 \<le> b" | (i) "x = PosInf"
    using assms by (auto simp: float_leq_Finite)
  then show ?thesis
  proof cases
    case f
    have "(12::int) \<le> \<lceil>b\<rceil>"
      using f(2) by (simp add: le_ceiling_iff)
    then show ?thesis using f(1) by simp
  next
    case i
    then show ?thesis by simp
  qed
qed

lemma calculate_threshold_outcome:
  assumes "sane_fpu F" "0 < stream_size" "0 < e" "e < 1" "0 < d" "d < 1"
  shows "calculate_threshold F stream_size (Finite e) (Finite d) = Inl ZeroDivisionError
       \<or> calculate_threshold F stream_size (Finite e) (Finite d) = Inl OverflowError
       \<or> (\<exists>t. calculate_threshold F stream_size (Finite e) (Finite d) = Inr t \<and> 12 \<le> t)"
proof (cases "libm_pow F e 2 = Finite 0")
  case True
  then show ?thesis
    using formula_unfold(1) [OF assms] by (simp add: calculate_threshold_valid [OF assms(2-6)])
next
  case False
  show ?thesis
  proof (cases "2 ^ 1024 - 2 ^ 970 \<le> stream_size")
    case True
    then show ?thesis
      using formula_unfold(2) [OF assms False]
      by (simp add: calculate_threshold_valid [OF assms(2-6)])
  next
    case False
    then have "stream_size < 2 ^ 1024 - 2 ^ 970" by simp
    then have "calculate_threshold F stream_size (Finite e) (Finite d)
        = math_ceil (formula_float F stream_size e d)"
      using formula_unfold(3) [OF assms \<open>libm_pow F e 2 \<noteq> Finite 0\<close>]
      by (simp add: calculate_threshold_valid [OF assms(2-6)])
    then show ?thesis
      using ceil_ge [OF formula_unfold(4) [OF assms \<open>libm_pow F e 2 \<noteq> Finite 0\<close>]] by simp
  qed
qed

lemma sane_exact_fpu: "sane_fpu exact_fpu"
proof -
  have "1 \<le> ln y" if "8 \<le> y" for y :: real
  proof -
    have "exp (1::real) \<le> 3" by (rule exp_le)
    then have "exp 1 \<le> y" using that by linarith
    then show ?thesis using that by (subst ln_ge_iff) linarith+
  qed
  moreover have "e ^ 2 \<le> 1" if "0 < e" "e < 1" for e :: real
    using that by (simp add: power_le_one)
  ultimately show ?thesis
    by (simp add: sane_fpu_def exact_fpu_def)
qed


lemma big_int: "(1::int) < 2 ^ 1024 - 2 ^ 970" "(2::int) ^ 1024 - 2 ^ 970 \<le> 2 ^ 1024"
  by simp_all

text \<open>
  C3 does not hold as stated. The stream size \<open>2 ^ 1024\<close>, the tolerance and the failure
  probability \<open>1 / 2\<close> are valid arguments; the quotient \<open>12.0 / 0.25\<close> is evaluated, and
  then \<open>8.0 * stream_size\<close> raises \<open>OverflowError\<close>, because the integer has no double.
  No ceiling is returned.
\<close>

theorem int_too_large_counterexample:
  "calculate_threshold exact_fpu (2 ^ 1024) (Finite (1 / 2)) (Finite (1 / 2)) = Inl OverflowError"
proof -
  have "libm_pow exact_fpu (1 / 2) 2 \<noteq> Finite 0"
    by (simp add: exact_fpu_def)
  then have "threshold_formula exact_fpu (2 ^ 1024) (Finite (1 / 2)) (Finite (1 / 2))
      = Inl OverflowError"
    using big_int(2) by (intro formula_unfold(2) [OF sane_exact_fpu]) simp_all
  then show ?thesis
    by (simp add: calculate_threshold_def)
qed

text \<open>
  C3, as amended. For a positive stream size and a tolerance and a failure probability
  strictly between 0 and 1, \<open>calculate_threshold\<close> evaluates the formula in double
  arithmetic. It raises \<open>ZeroDivisionError\<close> when the square of the tolerance is the
  double 0. Otherwise it raises \<open>OverflowError\<close> when the stream size is \<open>2 ^ 1024 - 2 ^ 970\<close>
  or more, or when the double that the arithmetic arrives at is infinite; and otherwise it
  returns the ceiling of that double, which is at least 12 and so positive. The arithmetic
  is any that rounds monotonically and exactly on small integers, with a C library whose
  square of a double in \<open>(0, 1)\<close> is in \<open>[0, 1]\<close> and whose logarithm of a double from 8
  on is at least 1.
\<close>

theorem calculate_threshold_value:
  assumes "sane_fpu F" "0 < stream_size" "0 < e" "e < 1" "0 < d" "d < 1"
  shows "(libm_pow F e 2 = Finite 0 \<longrightarrow>
            calculate_threshold F stream_size (Finite e) (Finite d) = Inl ZeroDivisionError)
       \<and> (libm_pow F e 2 \<noteq> Finite 0 \<longrightarrow> 2 ^ 1024 - 2 ^ 970 \<le> stream_size \<longrightarrow>
            calculate_threshold F stream_size (Finite e) (Finite d) = Inl OverflowError)
       \<and> (libm_pow F e 2 \<noteq> Finite 0 \<longrightarrow> stream_size < 2 ^ 1024 - 2 ^ 970 \<longrightarrow>
            (formula_float F stream_size e d = PosInf
               \<and> calculate_threshold F stream_size (Finite e) (Finite d) = Inl OverflowError)
            \<or> (\<exists>x. formula_float F stream_size e d = Finite x \<and> 12 \<le> x
                  \<and> calculate_threshold F stream_size (Finite e) (Finite d) = Inr \<lceil>x\<rceil>
                  \<and> 0 < \<lceil>x\<rceil>))"
proof -
  note valid = calculate_threshold_valid [OF assms(2-6), of F]
  have A: "libm_pow F e 2 = Finite 0 \<longrightarrow>
            calculate_threshold F stream_size (Finite e) (Finite d) = Inl ZeroDivisionError"
    using formula_unfold(1) [OF assms] by (simp add: valid)
  have B: "libm_pow F e 2 \<noteq> Finite 0 \<longrightarrow> 2 ^ 1024 - 2 ^ 970 \<le> stream_size \<longrightarrow>
            calculate_threshold F stream_size (Finite e) (Finite d) = Inl OverflowError"
    using formula_unfold(2) [OF assms] by (simp add: valid)
  have C: "libm_pow F e 2 \<noteq> Finite 0 \<longrightarrow> stream_size < 2 ^ 1024 - 2 ^ 970 \<longrightarrow>
            (formula_float F stream_size e d = PosInf
               \<and> calculate_threshold F stream_size (Finite e) (Finite d) = Inl OverflowError)
            \<or> (\<exists>x. formula_float F stream_size e d = Finite x \<and> 12 \<le> x
                  \<and> calculate_threshold F stream_size (Finite e) (Finite d) = Inr \<lceil>x\<rceil>
                  \<and> 0 < \<lceil>x\<rceil>)"
  proof (intro impI)
    assume p: "libm_pow F e 2 \<noteq> Finite 0" and n: "stream_size < 2 ^ 1024 - 2 ^ 970"
    have c: "calculate_threshold F stream_size (Finite e) (Finite d)
        = math_ceil (formula_float F stream_size e d)"
      using formula_unfold(3) [OF assms p n] by (simp add: valid)
    have "float_leq (Finite 12) (formula_float F stream_size e d)"
      using assms p by (rule formula_unfold(4))
    then consider (f) x where "formula_float F stream_size e d = Finite x" "12 \<le> x"
      | (i) "formula_float F stream_size e d = PosInf"
      by (auto simp: float_leq_Finite)
    then show "(formula_float F stream_size e d = PosInf
               \<and> calculate_threshold F stream_size (Finite e) (Finite d) = Inl OverflowError)
            \<or> (\<exists>x. formula_float F stream_size e d = Finite x \<and> 12 \<le> x
                  \<and> calculate_threshold F stream_size (Finite e) (Finite d) = Inr \<lceil>x\<rceil>
                  \<and> 0 < \<lceil>x\<rceil>)"
    proof cases
      case f
      have "0 < \<lceil>x\<rceil>"
        using f(2) by (simp add: less_ceiling_iff)
      then show ?thesis
        using f c by simp
    next
      case i
      then show ?thesis
        using c by simp
    qed
  qed
  show ?thesis
    by (intro conjI A B C)
qed

theorem calculate_threshold_value_witness:
  "sane_fpu exact_fpu \<and> (0::int) < 1 \<and> (0::real) < 1 / 2 \<and> (1::real) / 2 < 1
   \<and> libm_pow exact_fpu (1 / 2) 2 \<noteq> Finite 0
   \<and> (1::int) < 2 ^ 1024 - 2 ^ 970
   \<and> formula_float exact_fpu 1 (1 / 2) (1 / 2) = Finite (48 * ln 16)
   \<and> calculate_threshold exact_fpu 1 (Finite (1 / 2)) (Finite (1 / 2)) = Inr \<lceil>48 * ln (16::real)\<rceil>
   \<and> (0::int) < \<lceil>48 * ln (16::real)\<rceil>"
proof -
  have f: "formula_float exact_fpu 1 (1 / 2) (1 / 2) = Finite (48 * ln 16)"
    by (simp add: formula_float_def log_value_def exact_fpu_def power2_eq_square)
  have p: "libm_pow exact_fpu (1 / 2) 2 \<noteq> Finite 0"
    by (simp add: exact_fpu_def)
  show ?thesis
    using calculate_threshold_value [OF sane_exact_fpu, of 1 "1 / 2" "1 / 2"] f p big_int(1)
      sane_exact_fpu
    by simp
qed

section \<open>Monotonicity of the threshold\<close>








section \<open>Invalid parameters\<close>

lemma default_threshold:
  "\<exists>t. calculate_threshold exact_fpu 1 (Finite (1 / 8)) (Finite (1 / 16)) = Inr t \<and> 12 \<le> t"
proof -
  have "calculate_threshold exact_fpu 1 (Finite (1 / 8)) (Finite (1 / 16))
      = Inr \<lceil>768 * ln (128::real)\<rceil>"
    by (simp add: calculate_threshold_def threshold_formula_def float_div_def float_of_int_def
        exact_fpu_def power2_eq_square)
  then show ?thesis
    using calculate_threshold_outcome [OF sane_exact_fpu, of 1 "1 / 8" "1 / 16"] by simp
qed

lemma used_default_des_fields:
  "set_iter ascending_set (acc_set used_default_des) = [1]"
  "distinct_item_count used_default_des = 1"
  "threshold used_default_des = Callable (calculate_threshold exact_fpu)"
proof -
  obtain t where t: "calculate_threshold exact_fpu 1 (Finite (1 / 8)) (Finite (1 / 16)) = Inr t"
    "12 \<le> t"
    using default_threshold by auto
  then have "\<not> t \<le> 1" "0 < t"
    by linarith+
  then show "set_iter ascending_set (acc_set used_default_des) = [1]"
    "distinct_item_count used_default_des = 1"
    "threshold used_default_des = Callable (calculate_threshold exact_fpu)"
    using t(1) by (simp_all add: used_default_des_def default_des_def run_simps)
qed

text \<open>
  C6 does not hold as stated. An instance with the default threshold function has processed
  one item and holds it. A second call with \<open>reset_state\<close> and the stream size 0 raises
  \<open>ValueError\<close>, and the accumulator is empty afterwards: \<open>distinct\<close> resets the instance
  at line 129, before it resolves the threshold at line 132.
\<close>

theorem reset_before_error_counterexample:
  "set_iter ascending_set (acc_set used_default_des) = [1]
   \<and> fst (des_distinct ascending_set example_gen used_default_des [Some 2] 0 True 10)
       = Inl ValueError
   \<and> set_iter ascending_set
        (acc_set (snd (des_distinct ascending_set example_gen used_default_des [Some 2] 0 True 10)))
       = []"
proof -
  have "calculate_threshold exact_fpu 0 x y = Inl ValueError" for x y
    by (simp add: calculate_threshold_def)
  then show ?thesis
    using used_default_des_fields(1,3)
    by (simp add: des_distinct_def get_threshold_def reset_def ascending_set_def)
qed

text \<open>
  C6, as amended. \<open>calculate_threshold\<close> raises \<open>ValueError\<close> whenever the tolerance or the
  failure probability is outside the open interval from 0 to 1 or the stream size is not
  positive, and, in an arithmetic as for C3, on no other finite arguments: there it
  returns a threshold of at least 12 or raises \<open>ZeroDivisionError\<close> or \<open>OverflowError\<close>.
  \<open>distinct\<close> raises \<open>AssertionError\<close> when the threshold resolves to a value that is not
  positive, and passes on the error of a threshold callable that raises. In both cases no
  item has been processed, and the instance is unchanged when \<open>reset_state\<close> is false; when
  it is true the instance has been reset before the threshold was resolved.
\<close>

theorem invalid_parameter_raised:
  fixes P :: "('a, 'c) set_impl" and s :: "'c DES"
  shows "(float_le tolerance 0 \<or> float_ge tolerance 1 \<or> float_le failure 0 \<or> float_ge failure 1
        \<or> stream_size \<le> 0 \<longrightarrow>
        calculate_threshold F stream_size tolerance failure = Inl ValueError)
   \<and> (sane_fpu F \<longrightarrow>
        (calculate_threshold F stream_size (Finite e) (Finite d) = Inl ValueError \<longleftrightarrow>
           e \<le> 0 \<or> 1 \<le> e \<or> d \<le> 0 \<or> 1 \<le> d \<or> stream_size \<le> 0))
   \<and> (sane_fpu F \<longrightarrow> 0 < stream_size \<longrightarrow> 0 < e \<longrightarrow> e < 1 \<longrightarrow> 0 < d \<longrightarrow> d < 1 \<longrightarrow>
        calculate_threshold F stream_size (Finite e) (Finite d) = Inl ZeroDivisionError
        \<or> calculate_threshold F stream_size (Finite e) (Finite d) = Inl OverflowError
        \<or> (\<exists>u. calculate_threshold F stream_size (Finite e) (Finite d) = Inr u \<and> 12 \<le> u))
   \<and> (get_threshold s n = Inr t \<longrightarrow> t \<le> 0 \<longrightarrow>
        des_distinct P gen s stream n reset_state poll_rate
          = (Inl AssertionError, if reset_state then reset P gen s else s))
   \<and> (get_threshold s n = Inl err \<longrightarrow>
        des_distinct P gen s stream n reset_state poll_rate
          = (Inl err, if reset_state then reset P gen s else s))"
proof -
  have A: "float_le tolerance 0 \<or> float_ge tolerance 1 \<or> float_le failure 0
        \<or> float_ge failure 1 \<or> stream_size \<le> 0 \<longrightarrow>
        calculate_threshold F stream_size tolerance failure = Inl ValueError"
    by (auto simp: calculate_threshold_def)
  have O: "sane_fpu F \<longrightarrow> 0 < stream_size \<longrightarrow> 0 < e \<longrightarrow> e < 1 \<longrightarrow> 0 < d \<longrightarrow> d < 1 \<longrightarrow>
        calculate_threshold F stream_size (Finite e) (Finite d) = Inl ZeroDivisionError
        \<or> calculate_threshold F stream_size (Finite e) (Finite d) = Inl OverflowError
        \<or> (\<exists>u. calculate_threshold F stream_size (Finite e) (Finite d) = Inr u \<and> 12 \<le> u)"
    using calculate_threshold_outcome [of F stream_size e d] by blast
  have B: "sane_fpu F \<longrightarrow>
        (calculate_threshold F stream_size (Finite e) (Finite d) = Inl ValueError \<longleftrightarrow>
           e \<le> 0 \<or> 1 \<le> e \<or> d \<le> 0 \<or> 1 \<le> d \<or> stream_size \<le> 0)"
  proof (intro impI iffI)
    assume F: "sane_fpu F"
      and v: "calculate_threshold F stream_size (Finite e) (Finite d) = Inl ValueError"
    show "e \<le> 0 \<or> 1 \<le> e \<or> d \<le> 0 \<or> 1 \<le> d \<or> stream_size \<le> 0"
    proof (rule ccontr)
      assume "\<not> (e \<le> 0 \<or> 1 \<le> e \<or> d \<le> 0 \<or> 1 \<le> d \<or> stream_size \<le> 0)"
      then have "0 < stream_size" "0 < e" "e < 1" "0 < d" "d < 1"
        by simp_all
      then show False
        using O F v by auto
    qed
  next
    assume "e \<le> 0 \<or> 1 \<le> e \<or> d \<le> 0 \<or> 1 \<le> d \<or> stream_size \<le> 0"
    then show "calculate_threshold F stream_size (Finite e) (Finite d) = Inl ValueError"
      by (auto simp: calculate_threshold_def)
  qed
  have C: "get_threshold s n = Inr t \<longrightarrow> t \<le> 0 \<longrightarrow>
        des_distinct P gen s stream n reset_state poll_rate
          = (Inl AssertionError, if reset_state then reset P gen s else s)"
    by (simp add: des_distinct_def get_threshold_reset)
  have D: "get_threshold s n = Inl err \<longrightarrow>
        des_distinct P gen s stream n reset_state poll_rate
          = (Inl err, if reset_state then reset P gen s else s)"
    by (simp add: des_distinct_def get_threshold_reset)
  show ?thesis
    by (intro conjI A B O C D)
qed

theorem invalid_parameter_raised_witness:
  "sane_fpu exact_fpu
   \<and> calculate_threshold exact_fpu 0 (Finite (1 / 8)) (Finite (1 / 16)) = Inl ValueError
   \<and> calculate_threshold exact_fpu 1 (Finite 1) (Finite (1 / 16)) = Inl ValueError
   \<and> calculate_threshold exact_fpu 1 (Finite (1 / 8)) (Finite (1 / 16)) \<noteq> Inl ValueError
   \<and> get_threshold (example_des 0) 2 = Inr 0
   \<and> des_distinct ascending_set example_gen (example_des 0) [Some 1] 2 False 10
        = (Inl AssertionError, example_des 0)
   \<and> get_threshold default_des 0 = Inl ValueError
   \<and> des_distinct ascending_set example_gen default_des [Some 1] 0 False 10
        = (Inl ValueError, default_des)"
  using invalid_parameter_raised [where F = exact_fpu and stream_size = 0
      and tolerance = "Finite (1 / 8)" and failure = "Finite (1 / 16)" and P = ascending_set
      and s = "example_des 0" and n = 2 and t = 0 and gen = example_gen
      and stream = "[Some 1]" and reset_state = False and poll_rate = 10 and err = ValueError]
    invalid_parameter_raised [where F = exact_fpu and stream_size = 1 and e = 1
      and d = "1 / 16" and P = ascending_set and s = default_des and n = 0 and err = ValueError
      and gen = example_gen and stream = "[Some 1]" and reset_state = False and poll_rate = 10]
    invalid_parameter_raised [where F = exact_fpu and stream_size = 1 and e = "1 / 8"
      and d = "1 / 16" and P = ascending_set and s = default_des]
    sane_exact_fpu
  by (simp add: get_threshold_def example_des_def default_des_def des_init_def reset_def
      calculate_threshold_def)

end
